theory Spec2Isabelle
  imports Main
begin

section \<open>Python text primitives used by smallt.py\<close>

text \<open>
  A Python \<open>str\<close> is modelled as a \<open>string\<close>; a \<open>char\<close> stands for the code point
  of the same number, so the model covers text over U+0000 .. U+00FF.  The definitions
  below follow CPython's \<open>str\<close> methods on that range.
\<close>

abbreviation LF :: char where "LF \<equiv> CHR 0x0A"
abbreviation CR :: char where "CR \<equiv> CHR 0x0D"

definition is_linebreak :: "char \<Rightarrow> bool" where
  \<comment> \<open>the line boundaries of \<open>str.splitlines\<close>: LF, VT, FF, CR, FS, GS, RS, NEL\<close>
  "is_linebreak c \<longleftrightarrow>
     c \<in> set [CHR 0x0A, CHR 0x0B, CHR 0x0C, CHR 0x0D, CHR 0x1C, CHR 0x1D, CHR 0x1E, CHR 0x85]"

definition isspace :: "char \<Rightarrow> bool" where
  \<comment> \<open>the characters removed by \<open>str.strip()\<close> and separating the fields of \<open>str.split()\<close>\<close>
  "isspace c \<longleftrightarrow>
     c \<in> set [CHR 0x09, CHR 0x0A, CHR 0x0B, CHR 0x0C, CHR 0x0D, CHR 0x1C, CHR 0x1D, CHR 0x1E,
              CHR 0x1F, CHR 0x20, CHR 0x85, CHR 0xA0]"

definition strip :: "string \<Rightarrow> string" where
  "strip s = rev (dropWhile isspace (rev (dropWhile isspace s)))"

definition upper_letters :: string where
  \<comment> \<open>A-Z, and the capital letters U+00C0 .. U+00DE without the sign U+00D7\<close>
  "upper_letters = ''ABCDEFGHIJKLMNOPQRSTUVWXYZ'' @ [
      CHR 0xC0, CHR 0xC1, CHR 0xC2, CHR 0xC3, CHR 0xC4, CHR 0xC5, CHR 0xC6, CHR 0xC7,
      CHR 0xC8, CHR 0xC9, CHR 0xCA, CHR 0xCB, CHR 0xCC, CHR 0xCD, CHR 0xCE, CHR 0xCF,
      CHR 0xD0, CHR 0xD1, CHR 0xD2, CHR 0xD3, CHR 0xD4, CHR 0xD5, CHR 0xD6, CHR 0xD8,
      CHR 0xD9, CHR 0xDA, CHR 0xDB, CHR 0xDC, CHR 0xDD, CHR 0xDE]"

definition lower_letters :: string where
  \<comment> \<open>the lower-case letter of each, 32 code points above it\<close>
  "lower_letters = ''abcdefghijklmnopqrstuvwxyz'' @ [
      CHR 0xE0, CHR 0xE1, CHR 0xE2, CHR 0xE3, CHR 0xE4, CHR 0xE5, CHR 0xE6, CHR 0xE7,
      CHR 0xE8, CHR 0xE9, CHR 0xEA, CHR 0xEB, CHR 0xEC, CHR 0xED, CHR 0xEE, CHR 0xEF,
      CHR 0xF0, CHR 0xF1, CHR 0xF2, CHR 0xF3, CHR 0xF4, CHR 0xF5, CHR 0xF6, CHR 0xF8,
      CHR 0xF9, CHR 0xFA, CHR 0xFB, CHR 0xFC, CHR 0xFD, CHR 0xFE]"

definition lower_char :: "char \<Rightarrow> char" where
  "lower_char c = (case map_of (zip upper_letters lower_letters) c of Some d \<Rightarrow> d | None \<Rightarrow> c)"

definition lower :: "string \<Rightarrow> string" where
  "lower s = map lower_char s"

definition startswith :: "string \<Rightarrow> string \<Rightarrow> bool" where
  \<comment> \<open>\<open>s.startswith(p)\<close>\<close>
  "startswith s p \<longleftrightarrow> take (length p) s = p"

fun contains :: "string \<Rightarrow> string \<Rightarrow> bool" where
  \<comment> \<open>\<open>sub in s\<close>\<close>
  "contains [] sub = (sub = [])"
| "contains (c # cs) sub = (startswith (c # cs) sub \<or> contains cs sub)"

fun replace_first :: "string \<Rightarrow> string \<Rightarrow> string \<Rightarrow> string" where
  \<comment> \<open>\<open>s.replace(old, new, 1)\<close>\<close>
  "replace_first old new [] = (if old = [] then new else [])"
| "replace_first old new (c # cs) =
     (if startswith (c # cs) old then new @ drop (length old) (c # cs)
      else c # replace_first old new cs)"

fun replace_from :: "char \<Rightarrow> string \<Rightarrow> string \<Rightarrow> nat \<Rightarrow> string \<Rightarrow> string" where
  \<comment> \<open>scan for the non-empty pattern \<open>o # os\<close>; \<open>skip\<close> counts the characters of a match
      still to be dropped\<close>
  "replace_from o1 os new skip [] = []"
| "replace_from o1 os new (Suc k) (c # cs) = replace_from o1 os new k cs"
| "replace_from o1 os new 0 (c # cs) =
     (if startswith (c # cs) (o1 # os) then new @ replace_from o1 os new (length os) cs
      else c # replace_from o1 os new 0 cs)"

definition replace :: "string \<Rightarrow> string \<Rightarrow> string \<Rightarrow> string" where
  \<comment> \<open>\<open>s.replace(old, new)\<close>: every occurrence, left to right, without overlap\<close>
  "replace old new s =
     (case old of
        [] \<Rightarrow> new @ concat (map (\<lambda>c. c # new) s)
      | o1 # os \<Rightarrow> replace_from o1 os new 0 s)"

fun join :: "string \<Rightarrow> string list \<Rightarrow> string" where
  \<comment> \<open>\<open>sep.join(xs)\<close>\<close>
  "join sep [] = []"
| "join sep [x] = x"
| "join sep (x # y # ys) = x @ sep @ join sep (y # ys)"

fun split_from :: "string \<Rightarrow> string \<Rightarrow> string list" where
  \<comment> \<open>the loop of \<open>str.split()\<close>; \<open>acc\<close> is the field being read\<close>
  "split_from acc [] = (if acc = [] then [] else [acc])"
| "split_from acc (c # cs) =
     (if isspace c then (if acc = [] then split_from [] cs else acc # split_from [] cs)
      else split_from (acc @ [c]) cs)"

definition split :: "string \<Rightarrow> string list" where
  "split s = split_from [] s"

fun splitlines_from :: "string \<Rightarrow> string \<Rightarrow> string list" where
  \<comment> \<open>the loop of \<open>str.splitlines()\<close>; \<open>acc\<close> is the line being read; CR LF is one boundary\<close>
  "splitlines_from acc [] = (if acc = [] then [] else [acc])"
| "splitlines_from acc [c] = (if is_linebreak c then [acc] else [acc @ [c]])"
| "splitlines_from acc (c # d # cs) =
     (if c = CR \<and> d = LF then acc # splitlines_from [] cs
      else if is_linebreak c then acc # splitlines_from [] (d # cs)
      else splitlines_from (acc @ [c]) (d # cs))"

definition splitlines :: "string \<Rightarrow> string list" where
  "splitlines s = splitlines_from [] s"

fun universal_newlines :: "string \<Rightarrow> string" where
  \<comment> \<open>reading in text mode with \<open>newline=None\<close>: CR LF and a lone CR become LF\<close>
  "universal_newlines [] = []"
| "universal_newlines [c] = (if c = CR then [LF] else [c])"
| "universal_newlines (c # d # cs) =
     (if c = CR \<and> d = LF then LF # universal_newlines cs
      else if c = CR then LF # universal_newlines (d # cs)
      else c # universal_newlines (d # cs))"

definition is_digit :: "char \<Rightarrow> bool" where
  "is_digit c \<longleftrightarrow> c \<in> set ''0123456789''"

definition digit_val :: "char \<Rightarrow> int" where
  "digit_val c = (case map_of (zip ''0123456789'' [0, 1, 2, 3, 4, 5, 6, 7, 8, 9]) c of
                    Some v \<Rightarrow> v | None \<Rightarrow> 0)"

fun digits_ok :: "string \<Rightarrow> bool" where
  \<comment> \<open>decimal digits, with single underscores allowed between two digits\<close>
  "digits_ok [] = False"
| "digits_ok [c] = is_digit c"
| "digits_ok (c # d # cs) =
     (is_digit c \<and> (if d = CHR ''_'' then digits_ok cs else digits_ok (d # cs)))"

definition max_str_digits :: nat where
  \<comment> \<open>the interpreter's default limit on the digits of a converted string\<close>
  "max_str_digits = 4300"

datatype exn = OSError | ValueError | IndexError

definition py_int :: "string \<Rightarrow> exn + int" where
  \<comment> \<open>\<open>int(s)\<close>\<close>
  "py_int s =
     (let t = strip s;
          neg = (t \<noteq> [] \<and> hd t = CHR ''-'');
          body = (if t \<noteq> [] \<and> (hd t = CHR ''-'' \<or> hd t = CHR ''+'') then tl t else t);
          ds = filter is_digit body;
          v = foldl (\<lambda>n c. 10 * n + digit_val c) 0 ds
      in if digits_ok body \<and> length ds \<le> max_str_digits
         then Inr (if neg then - v else v) else Inl ValueError)"

section \<open>The task file\<close>

text \<open>
  The state of \<open>tasks.md\<close>: its raw text when it exists, whether an existing file can
  be read and whether the file can be opened for writing (permissions).  A failed read
  raises \<open>OSError\<close>; a text that cannot be decoded raises \<open>UnicodeDecodeError\<close>, which
  the source catches with the same handlers, and is not modelled apart.  A failed write
  raises \<open>OSError\<close> and leaves the file as it was.  Line ends are written as they are
  (POSIX).
\<close>

record fs =
  contents :: "string option"
  readable :: bool
  writable :: bool

definition read_text :: "fs \<Rightarrow> exn + string" where
  \<comment> \<open>\<open>Path(TASK_FILE).read_text()\<close>\<close>
  "read_text s =
     (case contents s of
        None \<Rightarrow> Inl OSError
      | Some raw \<Rightarrow> if readable s then Inr (universal_newlines raw) else Inl OSError)"

definition write_text :: "string \<Rightarrow> fs \<Rightarrow> exn + fs" where
  \<comment> \<open>\<open>Path(TASK_FILE).write_text(data)\<close>\<close>
  "write_text data s = (if writable s then Inr (s\<lparr>contents := Some data\<rparr>) else Inl OSError)"

definition append_text :: "string \<Rightarrow> fs \<Rightarrow> exn + fs" where
  \<comment> \<open>\<open>open("a")\<close> and one \<open>write\<close>: the file is created when it is absent\<close>
  "append_text data s =
     (if writable s
      then Inr (s\<lparr>contents := Some (case contents s of None \<Rightarrow> data | Some raw \<Rightarrow> raw @ data)\<rparr>)
      else Inl OSError)"

definition header_text :: string where
  \<comment> \<open>\<open>"# Task List\n\n"\<close>\<close>
  "header_text = ''# Task List'' @ [LF, LF]"

definition is_task_line :: "string \<Rightarrow> bool" where
  \<comment> \<open>\<open>line.startswith("- [")\<close>\<close>
  "is_task_line l \<longleftrightarrow> startswith l ''- [''"

definition ensure_task_file :: "fs \<Rightarrow> exn + fs" where
  "ensure_task_file s =
     (if contents s = None then write_text header_text s
      else
        (case read_text s of
           Inl e \<Rightarrow> write_text header_text s
         | Inr text \<Rightarrow>
             let content = strip text in
             if content = [] \<or> \<not> startswith content ''# Task List'' then
               let existing_tasks = filter is_task_line (splitlines content);
                   new_content = header_text @
                     (if existing_tasks \<noteq> [] then join [LF] existing_tasks @ [LF] else [])
               in (case write_text new_content s of
                     Inl e \<Rightarrow> write_text header_text s
                   | Inr s' \<Rightarrow> Inr s')
             else Inr s))"

definition load_tasks :: "fs \<Rightarrow> exn + string list \<times> fs" where
  "load_tasks s =
     (case read_text s of
        Inr text \<Rightarrow> Inr (splitlines text, s)
      | Inl e \<Rightarrow>
          (case ensure_task_file s of
             Inl e' \<Rightarrow> Inl e'
           | Inr s' \<Rightarrow> Inr ([''# Task List'', ''''], s')))"

definition save_tasks :: "string list \<Rightarrow> fs \<Rightarrow> bool \<times> fs" where
  "save_tasks lines s =
     (case write_text (join [LF] lines @ [LF]) s of
        Inr s' \<Rightarrow> (True, s')
      | Inl e \<Rightarrow> (False, s))"

section \<open>Core operations\<close>

text \<open>
  The status strings of the source, one constructor for each message; the values
  interpolated into a message are the constructor's arguments.
\<close>

datatype status =
    EmptyTask            \<comment> \<open>Task cannot be empty.\<close>
  | Added string         \<comment> \<open>Added: text\<close>
  | AddFailed            \<comment> \<open>Failed to add task (file error).\<close>
  | TaskNotFound         \<comment> \<open>Task not found.\<close>
  | AlreadyCompleted     \<comment> \<open>Already completed.\<close>
  | CheckedOff int       \<comment> \<open>Checked off task #index\<close>
  | SaveFailed           \<comment> \<open>Failed to save changes.\<close>
  | Deleted string       \<comment> \<open>Deleted: text\<close>
  | DeleteFailed         \<comment> \<open>Failed to delete task.\<close>
  | ClearedDone nat      \<comment> \<open>Cleared n completed task(s).\<close>
  | ClearFailed          \<comment> \<open>Failed to clear tasks.\<close>
  | NoTasksToClear       \<comment> \<open>No tasks to clear.\<close>
  | ClearedAll nat       \<comment> \<open>Cleared all n task(s).\<close>
  | InvalidNumber        \<comment> \<open>Invalid number.\<close>
  | Cancelled            \<comment> \<open>Cancelled.\<close>
  | UnknownCommand       \<comment> \<open>Unknown command.\<close>

definition task_indices :: "string list \<Rightarrow> nat list" where
  \<comment> \<open>\<open>[i for i, l in enumerate(lines) if l.startswith("- [")]\<close>\<close>
  "task_indices lines = filter (\<lambda>i. is_task_line (lines ! i)) [0..<length lines]"

definition list_tasks :: "fs \<Rightarrow> exn + (nat \<times> bool \<times> string) list \<times> fs" where
  \<comment> \<open>each entry: the number shown, whether the line is rendered as completed, the line\<close>
  "list_tasks s =
     (case load_tasks s of
        Inl e \<Rightarrow> Inl e
      | Inr (lines, s1) \<Rightarrow>
          let tasks = filter is_task_line lines
          in Inr (map (\<lambda>(i, line). (i + 1, contains (lower line) ''[x]'', line))
                    (zip [0..<length tasks] tasks), s1))"

definition add_task :: "string \<Rightarrow> fs \<Rightarrow> status \<times> fs" where
  "add_task task_text s =
     (if strip task_text = [] then (EmptyTask, s)
      else
        (case append_text (''- [ ] '' @ strip task_text @ [LF]) s of
           Inr s' \<Rightarrow> (Added (strip task_text), s')
         | Inl e \<Rightarrow> (AddFailed, s)))"

definition check_task :: "int \<Rightarrow> fs \<Rightarrow> exn + status \<times> fs" where
  "check_task index s =
     (case load_tasks s of
        Inl e \<Rightarrow> Inl e
      | Inr (lines, s1) \<Rightarrow>
          let task_lines = task_indices lines in
          if index < 1 \<or> index > int (length task_lines) then Inr (TaskNotFound, s1)
          else
            let real_idx = task_lines ! nat (index - 1);
                line = lines ! real_idx
            in if contains (lower line) ''[x]'' then Inr (AlreadyCompleted, s1)
               else
                 (case save_tasks (lines[real_idx := replace_first ''[ ]'' ''[x]'' line]) s1 of
                    (True, s2) \<Rightarrow> Inr (CheckedOff index, s2)
                  | (False, s2) \<Rightarrow> Inr (SaveFailed, s2)))"

definition delete_task :: "int \<Rightarrow> fs \<Rightarrow> exn + status \<times> fs" where
  "delete_task index s =
     (case load_tasks s of
        Inl e \<Rightarrow> Inl e
      | Inr (lines, s1) \<Rightarrow>
          let task_lines = task_indices lines in
          if index < 1 \<or> index > int (length task_lines) then Inr (TaskNotFound, s1)
          else
            let real_idx = task_lines ! nat (index - 1);
                task_text =
                  strip (replace ''- [X]'' '''' (replace ''- [x]'' ''''
                    (replace ''- [ ]'' '''' (lines ! real_idx))))
            in (case save_tasks (take real_idx lines @ drop (Suc real_idx) lines) s1 of
                  (True, s2) \<Rightarrow> Inr (Deleted task_text, s2)
                | (False, s2) \<Rightarrow> Inr (DeleteFailed, s2)))"

definition clear_done_tasks :: "fs \<Rightarrow> exn + status \<times> fs" where
  "clear_done_tasks s =
     (case load_tasks s of
        Inl e \<Rightarrow> Inl e
      | Inr (lines, s1) \<Rightarrow>
          let original_count = length (filter (\<lambda>l. startswith l ''- [x]'') lines);
              new_lines = filter (\<lambda>l. \<not> startswith l ''- [x]'') lines
          in (case save_tasks new_lines s1 of
                (True, s2) \<Rightarrow> Inr (ClearedDone original_count, s2)
              | (False, s2) \<Rightarrow> Inr (ClearFailed, s2)))"

definition clear_all_tasks :: "fs \<Rightarrow> exn + status \<times> fs" where
  "clear_all_tasks s =
     (case load_tasks s of
        Inl e \<Rightarrow> Inl e
      | Inr (lines, s1) \<Rightarrow>
          let task_count = length (filter is_task_line lines);
              new_lines = filter (\<lambda>l. \<not> is_task_line l) lines
          in if task_count = 0 then Inr (NoTasksToClear, s1)
             else
               (case save_tasks new_lines s1 of
                  (True, s2) \<Rightarrow> Inr (ClearedAll task_count, s2)
                | (False, s2) \<Rightarrow> Inr (ClearFailed, s2)))"

section \<open>The interactive shell and the command line\<close>

text \<open>
  What successive calls of \<open>input()\<close> yield: a line, or a \<open>KeyboardInterrupt\<close>; at the
  end of the list the input is exhausted and \<open>input()\<close> raises \<open>EOFError\<close>.
\<close>

datatype input_event = Line string | Interrupt

type_synonym screen = "(nat \<times> bool \<times> string) list \<times> status option"

definition redraw :: "status option \<Rightarrow> fs \<Rightarrow> exn + screen \<times> fs" where
  \<comment> \<open>the task list and the status shown; the decoration and the help text are constant\<close>
  "redraw status_msg s =
     (case list_tasks s of
        Inl e \<Rightarrow> Inl e
      | Inr (tasks, s1) \<Rightarrow> Inr ((tasks, status_msg), s1))"

definition second_field :: "string \<Rightarrow> exn + string" where
  \<comment> \<open>\<open>command.split()[1]\<close>\<close>
  "second_field command =
     (case split command of a # b # rest \<Rightarrow> Inr b | _ \<Rightarrow> Inl IndexError)"

definition parse_index :: "string \<Rightarrow> exn + int" where
  \<comment> \<open>\<open>int(command.split()[1])\<close>\<close>
  "parse_index command =
     (case second_field command of Inl e \<Rightarrow> Inl e | Inr field \<Rightarrow> py_int field)"

definition shell_command ::
  "string \<Rightarrow> input_event list \<Rightarrow> fs \<Rightarrow> exn + status option \<times> input_event list \<times> fs" where
  \<comment> \<open>the branches of the loop body after \<open>exit\<close>: the new status, the input left, the file\<close>
  "shell_command command inputs s =
     (if startswith command ''add '' then
        (case add_task (join '' '' (drop 1 (split command))) s of
           (st, s') \<Rightarrow> Inr (Some st, inputs, s'))
      else if startswith command ''check '' then
        (case parse_index command of
           Inl e \<Rightarrow> Inr (Some InvalidNumber, inputs, s)
         | Inr idx \<Rightarrow>
             (case check_task idx s of
                Inl e \<Rightarrow> Inl e
              | Inr (st, s') \<Rightarrow> Inr (Some st, inputs, s')))
      else if startswith command ''delete '' then
        (case parse_index command of
           Inl e \<Rightarrow> Inr (Some InvalidNumber, inputs, s)
         | Inr idx \<Rightarrow>
             (case delete_task idx s of
                Inl e \<Rightarrow> Inl e
              | Inr (st, s') \<Rightarrow> Inr (Some st, inputs, s')))
      else if command = ''clear'' then
        (case clear_done_tasks s of
           Inl e \<Rightarrow> Inl e
         | Inr (st, s') \<Rightarrow> Inr (Some st, inputs, s'))
      else if command = ''clearall'' then
        (case inputs of
           [] \<Rightarrow> Inr (Some Cancelled, [], s)
         | Interrupt # rest \<Rightarrow> Inr (Some Cancelled, rest, s)
         | Line answer # rest \<Rightarrow>
             let confirm = lower (strip answer) in
             if confirm = ''y'' then
               (case clear_all_tasks s of
                  Inl e \<Rightarrow> Inl e
                | Inr (st, s') \<Rightarrow> Inr (Some st, rest, s'))
             else Inr (Some Cancelled, rest, s))
      else if command = ''list'' then Inr (None, inputs, s)
      else Inr (Some UnknownCommand, inputs, s))"

lemma shell_command_inputs:
  "shell_command command inputs s = Inr (st, inputs', s') \<Longrightarrow> length inputs' \<le> length inputs"
  unfolding shell_command_def
  by (auto simp: Let_def split: if_splits sum.splits prod.splits list.splits input_event.splits)

function run_shell_loop ::
  "status option \<Rightarrow> input_event list \<Rightarrow> fs \<Rightarrow> exn + screen list \<times> fs" where
  "run_shell_loop status_msg inputs s =
     (case redraw status_msg s of
        Inl e \<Rightarrow> Inl e
      | Inr (scr, s1) \<Rightarrow>
          (case inputs of
             [] \<Rightarrow> Inr ([scr], s1)
           | Interrupt # rest \<Rightarrow> Inr ([scr], s1)
           | Line raw # rest \<Rightarrow>
               let command = lower (strip raw) in
               if command = ''exit'' then Inr ([scr], s1)
               else
                 (case shell_command command rest s1 of
                    Inl e \<Rightarrow> Inl e
                  | Inr (st, rest', s2) \<Rightarrow>
                      (case run_shell_loop st rest' s2 of
                         Inl e \<Rightarrow> Inl e
                       | Inr (scrs, s3) \<Rightarrow> Inr (scr # scrs, s3)))))"
  by pat_completeness auto
termination
  by (relation "measure (\<lambda>(status_msg, inputs, s). length inputs)")
     (auto dest: shell_command_inputs)

definition run_shell :: "input_event list \<Rightarrow> fs \<Rightarrow> exn + screen list \<times> fs" where
  "run_shell inputs s =
     (case ensure_task_file s of
        Inl e \<Rightarrow> Inl e
      | Inr s0 \<Rightarrow> run_shell_loop None inputs s0)"

datatype printed =
    Shell "screen list"
  | Printed status
  | Listing "(nat \<times> bool \<times> string) list"
  | NoTasksYet
  | Help
  | UnknownArgument string

definition main :: "string list \<Rightarrow> input_event list \<Rightarrow> fs \<Rightarrow> exn + printed \<times> fs" where
  \<comment> \<open>\<open>args\<close> is \<open>sys.argv[1:]\<close>\<close>
  "main args inputs s =
     (case ensure_task_file s of
        Inl e \<Rightarrow> Inl e
      | Inr s0 \<Rightarrow>
          (case args of
             [] \<Rightarrow>
               (case run_shell inputs s0 of
                  Inl e \<Rightarrow> Inl e
                | Inr (scrs, s1) \<Rightarrow> Inr (Shell scrs, s1))
           | a # rest \<Rightarrow>
               if a = ''add'' then
                 (case add_task (join '' '' rest) s0 of (st, s1) \<Rightarrow> Inr (Printed st, s1))
               else if a = ''list'' then
                 (case list_tasks s0 of
                    Inl e \<Rightarrow> Inl e
                  | Inr (tasks, s1) \<Rightarrow>
                      Inr (if tasks \<noteq> [] then Listing tasks else NoTasksYet, s1))
               else if a \<in> set [''help'', ''-h'', ''--help''] then Inr (Help, s0)
               else Inr (UnknownArgument a, s0)))"

section \<open>Observations used in the statements\<close>

text \<open>
  The lines of the file as \<open>load_tasks\<close> reads them, split into the task lines (the
  lines given a rank) and the other lines; and the vocabulary for line ends.
\<close>

definition no_breaks :: "string \<Rightarrow> bool" where
  \<comment> \<open>no line boundary of \<open>splitlines\<close> occurs in the text\<close>
  "no_breaks l \<longleftrightarrow> (\<forall>c \<in> set l. \<not> is_linebreak c)"

definition only_lf :: "string \<Rightarrow> bool" where
  \<comment> \<open>LF is the only line boundary that occurs in the text\<close>
  "only_lf t \<longleftrightarrow> (\<forall>c \<in> set t. c \<noteq> LF \<longrightarrow> \<not> is_linebreak c)"

definition with_final_newline :: "string \<Rightarrow> string" where
  \<comment> \<open>the spec's trailing-newline normalization: a missing final newline is added\<close>
  "with_final_newline t = (if t \<noteq> [] \<and> last t = LF then t else t @ [LF])"

definition file_lines :: "fs \<Rightarrow> string list" where
  \<comment> \<open>the lines \<open>load_tasks\<close> reads from a readable file\<close>
  "file_lines s = (case read_text s of Inr text \<Rightarrow> splitlines text | Inl e \<Rightarrow> [])"

definition tasks_of :: "fs \<Rightarrow> string list" where
  \<comment> \<open>the task lines in file order: the task of rank \<open>i\<close> is \<open>tasks_of s ! (i - 1)\<close>\<close>
  "tasks_of s = filter is_task_line (file_lines s)"

definition other_lines :: "fs \<Rightarrow> string list" where
  \<comment> \<open>the lines that are not task lines, in file order\<close>
  "other_lines s = filter (\<lambda>l. \<not> is_task_line l) (file_lines s)"

definition task_file :: "string \<Rightarrow> fs" where
  \<comment> \<open>a file with the given text that can be read and written\<close>
  "task_file text = \<lparr>contents = Some text, readable = True, writable = True\<rparr>"

definition save_loaded :: "fs \<Rightarrow> exn + bool \<times> fs" where
  \<comment> \<open>the spec's \<open>save(load(path))\<close>\<close>
  "save_loaded s =
     (case load_tasks s of Inl e \<Rightarrow> Inl e | Inr (lines, s1) \<Rightarrow> Inr (save_tasks lines s1))"

definition unreadable_file :: "string \<Rightarrow> fs" where
  \<comment> \<open>a file with the given text that exists and cannot be read\<close>
  "unreadable_file text = \<lparr>contents = Some text, readable = False, writable = True\<rparr>"

definition absent_file :: fs where
  \<comment> \<open>no file yet, in a directory that can be written\<close>
  "absent_file = \<lparr>contents = None, readable = True, writable = True\<rparr>"

definition example_file :: fs where
  \<comment> \<open>a small file: the header, three tasks and a note\<close>
  "example_file =
     task_file (header_text @ ''- [ ] a'' @ [LF] @ ''- [x] b'' @ [LF] @ ''note'' @ [LF] @
                ''- [ ] c'' @ [LF])"

section \<open>Splitting and joining lines\<close>

lemma is_linebreak_LF [simp]: "is_linebreak LF"
  by (simp add: is_linebreak_def)

lemma is_linebreak_CR [simp]: "is_linebreak CR"
  by (simp add: is_linebreak_def)

lemma splitlines_from_plain:
  "\<not> is_linebreak c \<Longrightarrow> cs \<noteq> [] \<Longrightarrow> splitlines_from acc (c # cs) = splitlines_from (acc @ [c]) cs"
  by (cases cs) auto

lemma splitlines_from_break:
  "is_linebreak c \<Longrightarrow> c \<noteq> CR \<Longrightarrow> splitlines_from acc (c # cs) = acc # splitlines_from [] cs"
  by (cases cs) auto

lemma splitlines_from_line:
  "no_breaks l \<Longrightarrow> splitlines_from acc (l @ LF # rest) = (acc @ l) # splitlines_from [] rest"
proof (induction l arbitrary: acc)
  case Nil
  show ?case by (simp add: splitlines_from_break)
next
  case (Cons c l)
  from Cons.prems have c: "\<not> is_linebreak c" and l: "no_breaks l"
    by (simp_all add: no_breaks_def)
  have "splitlines_from acc ((c # l) @ LF # rest) = splitlines_from (acc @ [c]) (l @ LF # rest)"
    using c by (simp add: splitlines_from_plain)
  then show ?case using Cons.IH [OF l] by simp
qed

lemma join_Cons: "ls \<noteq> [] \<Longrightarrow> join sep (x # ls) = x @ sep @ join sep ls"
  by (cases ls) simp_all

lemma splitlines_join:
  "\<forall>l \<in> set ls. no_breaks l \<Longrightarrow>
     splitlines (join [LF] ls @ [LF]) = (if ls = [] then [[]] else ls)"
proof (induction ls)
  case Nil
  show ?case by (simp add: splitlines_def)
next
  case (Cons x ls)
  then have x: "no_breaks x" and IH: "splitlines (join [LF] ls @ [LF]) = (if ls = [] then [[]] else ls)"
    by simp_all
  show ?case
  proof (cases ls)
    case Nil
    then show ?thesis using splitlines_from_line [OF x, of "[]" "[]"] by (simp add: splitlines_def)
  next
    case (Cons y ys)
    then show ?thesis
      using splitlines_from_line [OF x, of "[]" "join [LF] ls @ [LF]"] IH
      by (simp add: splitlines_def)
  qed
qed

lemma no_breaks_Nil [simp]: "no_breaks []"
  by (simp add: no_breaks_def)

lemma no_breaks_snoc: "no_breaks (acc @ [c]) \<longleftrightarrow> no_breaks acc \<and> \<not> is_linebreak c"
  by (auto simp: no_breaks_def)

lemma splitlines_from_no_breaks:
  "no_breaks acc \<Longrightarrow> l \<in> set (splitlines_from acc t) \<Longrightarrow> no_breaks l"
proof (induction acc t rule: splitlines_from.induct)
  case (1 acc)
  then show ?case by (simp split: if_splits)
next
  case (2 acc c)
  then show ?case by (simp add: no_breaks_snoc split: if_splits)
next
  case (3 acc c d cs)
  show ?case
  proof (cases "c = CR \<and> d = LF")
    case True
    with "3.prems" have "l = acc \<or> l \<in> set (splitlines_from [] cs)" by simp
    then show ?thesis using "3.IH"(1) [OF True] "3.prems"(1) by auto
  next
    case False
    show ?thesis
    proof (cases "is_linebreak c")
      case True
      with False "3.prems" have "l = acc \<or> l \<in> set (splitlines_from [] (d # cs))"
        by (auto split: if_splits)
      then show ?thesis using "3.IH"(2) [OF False True] "3.prems"(1) by auto
    next
      case nb: False
      with False "3.prems" have "l \<in> set (splitlines_from (acc @ [c]) (d # cs))"
        by (auto split: if_splits)
      moreover have "no_breaks (acc @ [c])" using nb "3.prems"(1) by (simp add: no_breaks_snoc)
      ultimately show ?thesis using "3.IH"(3) [OF False nb] by simp
    qed
  qed
qed

lemma splitlines_no_breaks: "l \<in> set (splitlines t) \<Longrightarrow> no_breaks l"
  using splitlines_from_no_breaks [of "[]" l t] by (simp add: splitlines_def)

lemma splitlines_from_nonempty: "t \<noteq> [] \<Longrightarrow> splitlines_from acc t \<noteq> []"
  by (induction acc t rule: splitlines_from.induct) auto

lemma universal_newlines_id: "CR \<notin> set t \<Longrightarrow> universal_newlines t = t"
  by (induction t rule: universal_newlines.induct) auto

lemma set_join: "set (join sep ls) \<subseteq> set sep \<union> (\<Union>l \<in> set ls. set l)"
  by (induction sep ls rule: join.induct) auto

lemma no_CR_join:
  assumes "\<forall>l \<in> set ls. no_breaks l"
  shows "CR \<notin> set (join [LF] ls @ [LF])"
proof
  assume "CR \<in> set (join [LF] ls @ [LF])"
  then have "CR \<in> set (join [LF] ls)" by simp
  with set_join [of "[LF]" ls] obtain l where "l \<in> set ls" "CR \<in> set l" by auto
  with assms have "\<not> is_linebreak CR" unfolding no_breaks_def by blast
  then show False by simp
qed

lemma join_splitlines_from:
  "only_lf t \<Longrightarrow> no_breaks acc \<Longrightarrow>
     join [LF] (splitlines_from acc t) @ [LF] =
       (if t \<noteq> [] \<and> last t = LF then acc @ t else acc @ t @ [LF])"
proof (induction acc t rule: splitlines_from.induct)
  case (1 acc)
  then show ?case by simp
next
  case (2 acc c)
  then show ?case by (cases "c = LF") (simp_all add: only_lf_def)
next
  case (3 acc c d cs)
  from "3.prems"(1) have rest: "only_lf (d # cs)"
    by (simp add: only_lf_def)
  show ?case
  proof (cases "c = LF")
    case True
    have ne: "splitlines_from [] (d # cs) \<noteq> []" by (rule splitlines_from_nonempty) simp
    have "join [LF] (splitlines_from [] (d # cs)) @ [LF] =
            (if last (d # cs) = LF then d # cs else d # cs @ [LF])"
      using "3.IH"(2) True rest by (simp add: no_breaks_def)
    then show ?thesis using True ne by (simp add: join_Cons)
  next
    case False
    with "3.prems"(1) have nb: "\<not> is_linebreak c" by (simp add: only_lf_def)
    then have "c \<noteq> CR" by auto
    moreover have "no_breaks (acc @ [c])" using nb "3.prems"(2) by (simp add: no_breaks_def)
    ultimately show ?thesis using "3.IH"(3) nb rest by simp
  qed
qed

lemma join_splitlines:
  assumes "only_lf t"
  shows "join [LF] (splitlines t) @ [LF] = with_final_newline t"
proof -
  have "join [LF] (splitlines_from [] t) @ [LF] =
          (if t \<noteq> [] \<and> last t = LF then [] @ t else [] @ t @ [LF])"
    using assms by (rule join_splitlines_from) simp
  then show ?thesis by (simp add: splitlines_def with_final_newline_def)
qed

lemma only_lf_no_CR: "only_lf t \<Longrightarrow> CR \<notin> set t"
  unfolding only_lf_def using is_linebreak_CR by blast


section \<open>Ranks and positions\<close>

lemma task_indices_Cons:
  "task_indices (x # xs) = (if is_task_line x then [0] else []) @ map Suc (task_indices xs)"
proof -
  have "[0..<length (x # xs)] = 0 # map Suc [0..<length xs]"
    by (simp add: upt_conv_Cons map_Suc_upt del: upt_Suc)
  then show ?thesis
    by (simp add: task_indices_def filter_map o_def)
qed

lemma map_nth_task_indices: "map ((!) xs) (task_indices xs) = filter is_task_line xs"
proof -
  have "filter is_task_line (map ((!) xs) [0..<length xs]) = map ((!) xs) (task_indices xs)"
    by (simp only: filter_map task_indices_def o_def)
  then show ?thesis by (simp only: map_nth)
qed

lemma length_task_indices: "length (task_indices xs) = length (filter is_task_line xs)"
  using map_nth_task_indices [of xs] by (metis length_map)

lemma nth_task_indices:
  "k < length (filter is_task_line xs) \<Longrightarrow>
     task_indices xs ! k < length xs \<and>
     xs ! (task_indices xs ! k) = filter is_task_line xs ! k \<and>
     filter is_task_line (take (task_indices xs ! k) xs) = take k (filter is_task_line xs) \<and>
     filter is_task_line (drop (Suc (task_indices xs ! k)) xs) = drop (Suc k) (filter is_task_line xs)"
proof (induction xs arbitrary: k)
  case Nil
  then show ?case by simp
next
  case (Cons x xs)
  show ?case
  proof (cases "is_task_line x")
    case True
    show ?thesis
    proof (cases k)
      case 0
      then show ?thesis using True by (simp add: task_indices_Cons)
    next
      case (Suc k')
      with Cons.prems True have k': "k' < length (filter is_task_line xs)" by simp
      then have "k' < length (task_indices xs)" by (simp add: length_task_indices)
      then show ?thesis using Cons.IH [OF k'] True Suc by (simp add: task_indices_Cons)
    qed
  next
    case False
    with Cons.prems have k: "k < length (filter is_task_line xs)" by simp
    then have "k < length (task_indices xs)" by (simp add: length_task_indices)
    then show ?thesis using Cons.IH [OF k] False by (simp add: task_indices_Cons)
  qed
qed

lemma task_indices_cong:
  assumes "map is_task_line xs = map is_task_line ys"
  shows "task_indices xs = task_indices ys"
proof -
  from assms have len: "length xs = length ys" by (metis length_map)
  have "\<And>i. i < length xs \<Longrightarrow> is_task_line (xs ! i) = is_task_line (ys ! i)"
    using assms len by (metis nth_map)
  then show ?thesis
    unfolding task_indices_def len [symmetric] by (intro filter_cong) auto
qed

lemma filter_remove_nth:
  "r < length xs \<Longrightarrow> P (xs ! r) \<Longrightarrow>
     filter (\<lambda>l. \<not> P l) (take r xs @ drop (Suc r) xs) = filter (\<lambda>l. \<not> P l) xs"
proof -
  assume r: "r < length xs" and P: "P (xs ! r)"
  have "filter (\<lambda>l. \<not> P l) xs = filter (\<lambda>l. \<not> P l) (take r xs @ xs ! r # drop (Suc r) xs)"
    using r by (simp add: id_take_nth_drop [symmetric])
  then show ?thesis using P by simp
qed

lemma filter_update_nth:
  "r < length xs \<Longrightarrow> P (xs ! r) \<Longrightarrow> P y \<Longrightarrow>
     filter (\<lambda>l. \<not> P l) (xs[r := y]) = filter (\<lambda>l. \<not> P l) xs"
proof -
  assume r: "r < length xs" and P: "P (xs ! r)" "P y"
  have "filter (\<lambda>l. \<not> P l) xs = filter (\<lambda>l. \<not> P l) (take r xs @ xs ! r # drop (Suc r) xs)"
    using r by (simp add: id_take_nth_drop [symmetric])
  then show ?thesis using P r by (simp add: upd_conv_take_nth_drop)
qed


section \<open>Reading and writing the file\<close>

lemma read_text_Inr:
  "read_text s = Inr text \<longleftrightarrow> (\<exists>raw. contents s = Some raw \<and> readable s \<and> text = universal_newlines raw)"
  by (auto simp: read_text_def split: option.splits)

lemma load_tasks_readable: "read_text s = Inr text \<Longrightarrow> load_tasks s = Inr (splitlines text, s)"
  by (simp add: load_tasks_def)

lemma file_lines_readable: "read_text s = Inr text \<Longrightarrow> file_lines s = splitlines text"
  by (simp add: file_lines_def)

lemma file_lines_nonempty_readable: "file_lines s \<noteq> [] \<Longrightarrow> \<exists>text. read_text s = Inr text"
  by (cases "read_text s") (simp_all add: file_lines_def)

lemma file_lines_no_breaks: "l \<in> set (file_lines s) \<Longrightarrow> no_breaks l"
  by (cases "read_text s") (auto simp: file_lines_def dest: splitlines_no_breaks)

lemma save_tasks_writable:
  "writable s \<Longrightarrow> save_tasks ls s = (True, s\<lparr>contents := Some (join [LF] ls @ [LF])\<rparr>)"
  by (simp add: save_tasks_def write_text_def)

lemma save_tasks_unwritable: "\<not> writable s \<Longrightarrow> save_tasks ls s = (False, s)"
  by (simp add: save_tasks_def write_text_def)

lemma file_lines_saved:
  assumes "readable s" and "\<forall>l \<in> set ls. no_breaks l"
  shows "file_lines (s\<lparr>contents := Some (join [LF] ls @ [LF])\<rparr>) = (if ls = [] then [[]] else ls)"
proof -
  have "universal_newlines (join [LF] ls @ [LF]) = join [LF] ls @ [LF]"
    using assms(2) by (intro universal_newlines_id no_CR_join)
  then have "file_lines (s\<lparr>contents := Some (join [LF] ls @ [LF])\<rparr>) = splitlines (join [LF] ls @ [LF])"
    using assms(1) by (simp add: file_lines_def read_text_def)
  then show ?thesis using assms(2) by (simp only: splitlines_join)
qed

lemma not_task_line_Nil [simp]: "\<not> is_task_line []"
  by (simp add: is_task_line_def startswith_def)

lemma tasks_of_saved:
  assumes "readable s" and "\<forall>l \<in> set ls. no_breaks l"
  shows "tasks_of (s\<lparr>contents := Some (join [LF] ls @ [LF])\<rparr>) = filter is_task_line ls"
  unfolding tasks_of_def file_lines_saved [OF assms] by simp

section \<open>Text replacement and the check box\<close>

lemma replace_from_absent:
  "\<not> contains t (o1 # os) \<Longrightarrow> replace_from o1 os new 0 t = t"
  by (induction t) simp_all

lemma replace_absent: "\<not> contains t (o1 # os) \<Longrightarrow> replace (o1 # os) new t = t"
  by (simp add: replace_def replace_from_absent)

lemma replace_from_skip:
  "replace_from o1 os new (length p) (p @ t) = replace_from o1 os new 0 t"
  by (induction p) simp_all

lemma replace_match: "replace (o1 # os) new ((o1 # os) @ t) = new @ replace (o1 # os) new t"
  by (simp add: replace_def startswith_def replace_from_skip)

lemma replace_nomatch:
  "\<not> startswith (c # cs) (o1 # os) \<Longrightarrow>
     replace (o1 # os) new (c # cs) = c # replace (o1 # os) new cs"
  by (simp add: replace_def)

lemma deleted_text_plain:
  assumes "m = CHR '' '' \<or> m = CHR ''x'' \<or> m = CHR ''X''"
    and "\<not> contains text ''- [ ]''" and "\<not> contains text ''- [x]''" and "\<not> contains text ''- [X]''"
  shows "strip (replace ''- [X]'' '''' (replace ''- [x]'' '''' (replace ''- [ ]'' ''''
           (''- ['' @ [m] @ '']'' @ text)))) = strip text"
proof -
  have a: "replace ''- [ ]'' '''' text = text" "replace ''- [x]'' '''' text = text"
    "replace ''- [X]'' '''' text = text"
    using assms(2-4) by (simp_all add: replace_absent)
  have m1: "replace ''- [ ]'' '''' (''- [ ]'' @ text) = text"
    using replace_match [of "CHR ''-''" "'' [ ]''" "''''" "text"] a by simp
  have m2: "replace ''- [x]'' '''' (''- [x]'' @ text) = text"
    using replace_match [of "CHR ''-''" "'' [x]''" "''''" "text"] a by simp
  have m3: "replace ''- [X]'' '''' (''- [X]'' @ text) = text"
    using replace_match [of "CHR ''-''" "'' [X]''" "''''" "text"] a by simp
  have n2: "replace ''- [ ]'' '''' (''- [x]'' @ text) = ''- [x]'' @ text"
    using a(1) by (simp add: replace_nomatch startswith_def)
  have n3: "replace ''- [ ]'' '''' (''- [X]'' @ text) = ''- [X]'' @ text"
    using a(1) by (simp add: replace_nomatch startswith_def)
  have n4: "replace ''- [x]'' '''' (''- [X]'' @ text) = ''- [X]'' @ text"
    using a(2) by (simp add: replace_nomatch startswith_def)
  from assms(1) show ?thesis
  proof (elim disjE)
    assume "m = CHR '' ''"
    then show ?thesis using m1 a by simp
  next
    assume "m = CHR ''x''"
    then show ?thesis using n2 m2 a by simp
  next
    assume "m = CHR ''X''"
    then show ?thesis using n3 n4 m3 a by simp
  qed
qed

lemma is_task_line_shape:
  "is_task_line l \<longleftrightarrow> (\<exists>rest. l = CHR ''-'' # CHR '' '' # CHR ''['' # rest)"
proof (cases l)
  case Nil
  then show ?thesis by (simp add: is_task_line_def startswith_def)
next
  case l: (Cons a l1)
  show ?thesis
  proof (cases l1)
    case Nil
    then show ?thesis using l by (simp add: is_task_line_def startswith_def)
  next
    case l1: (Cons b l2)
    show ?thesis
    proof (cases l2)
      case Nil
      then show ?thesis using l l1 by (simp add: is_task_line_def startswith_def)
    next
      case (Cons c l3)
      then show ?thesis using l l1 by (auto simp: is_task_line_def startswith_def)
    qed
  qed
qed

lemma is_task_line_replace_first:
  "is_task_line l \<Longrightarrow> is_task_line (replace_first ''[ ]'' ''[x]'' l)"
  by (auto simp: is_task_line_shape startswith_def)

lemma contains_replace_first:
  "contains l ''[ ]'' \<Longrightarrow> contains (replace_first ''[ ]'' ''[x]'' l) ''[x]''"
proof (induction l)
  case Nil
  then show ?case by simp
next
  case (Cons c cs)
  show ?case
  proof (cases "startswith (c # cs) ''[ ]''")
    case True
    then show ?thesis by (simp add: startswith_def)
  next
    case False
    with Cons.prems have "contains cs ''[ ]''" by simp
    then have "contains (replace_first ''[ ]'' ''[x]'' cs) ''[x]''" by (rule Cons.IH)
    then show ?thesis using False by simp
  qed
qed

lemma startswith_map: "startswith l p \<Longrightarrow> startswith (map f l) (map f p)"
  unfolding startswith_def by (metis length_map take_map)

lemma lower_checked_box: "lower ''[x]'' = ''[x]''"
  by code_simp

lemma startswith_lower: "startswith l ''[x]'' \<Longrightarrow> startswith (lower l) ''[x]''"
  using startswith_map [of l "''[x]''" lower_char] lower_checked_box by (simp add: lower_def)

lemma contains_lower: "contains l ''[x]'' \<Longrightarrow> contains (lower l) ''[x]''"
proof (induction l)
  case Nil
  then show ?case by simp
next
  case (Cons c cs)
  from Cons.prems have "startswith (c # cs) ''[x]'' \<or> contains cs ''[x]''" by simp
  then show ?case
  proof
    assume "startswith (c # cs) ''[x]''"
    then have "startswith (lower (c # cs)) ''[x]''" by (rule startswith_lower)
    then show ?thesis by (simp add: lower_def)
  next
    assume "contains cs ''[x]''"
    then have "contains (lower cs) ''[x]''" by (rule Cons.IH)
    then show ?thesis by (simp add: lower_def)
  qed
qed

lemma replace_first_absent: "\<not> contains l (o1 # os) \<Longrightarrow> replace_first (o1 # os) new l = l"
  by (induction l) simp_all

lemma set_replace_first: "set (replace_first old new l) \<subseteq> set new \<union> set l"
proof (induction l)
  case Nil
  show ?case by auto
next
  case (Cons c cs)
  have "set (drop (length old) (c # cs)) \<subseteq> set (c # cs)" by (rule set_drop_subset)
  then show ?case using Cons.IH by auto
qed

lemma no_breaks_replace_first:
  assumes "no_breaks l"
  shows "no_breaks (replace_first ''[ ]'' ''[x]'' l)"
proof -
  have "\<not> is_linebreak c" if "c \<in> set (replace_first ''[ ]'' ''[x]'' l)" for c
  proof -
    from that set_replace_first [of "''[ ]''" "''[x]''" l]
    have "c \<in> set ''[x]'' \<or> c \<in> set l" by blast
    then show ?thesis using assms by (auto simp: no_breaks_def is_linebreak_def)
  qed
  then show ?thesis by (simp add: no_breaks_def)
qed

lemma is_task_line_take: "is_task_line l \<longleftrightarrow> take 3 l = ''- [''"
  by (simp add: is_task_line_def startswith_def numeral_3_eq_3)

section \<open>The operations on a readable file\<close>

lemma tasks_nonempty_readable: "tasks_of s \<noteq> [] \<Longrightarrow> \<exists>text. read_text s = Inr text"
  by (rule file_lines_nonempty_readable) (auto simp: tasks_of_def)

lemma read_text_readable: "read_text s = Inr text \<Longrightarrow> readable s"
  by (simp add: read_text_Inr) blast

lemma no_breaks_filter: "\<forall>l \<in> set (filter P (file_lines s)). no_breaks l"
  by (auto intro: file_lines_no_breaks)

lemma task_file_sel:
  "contents (task_file t) = Some t" "readable (task_file t)" "writable (task_file t)"
  "task_file t\<lparr>contents := Some u\<rparr> = task_file u"
  by (simp_all add: task_file_def)

lemma read_text_task_file: "CR \<notin> set t \<Longrightarrow> read_text (task_file t) = Inr t"
  by (simp add: read_text_def task_file_def universal_newlines_id)

lemma load_tasks_file_lines: "read_text s = Inr text \<Longrightarrow> load_tasks s = Inr (file_lines s, s)"
  by (simp add: load_tasks_readable file_lines_readable)

lemma removed_lines_no_breaks:
  "l \<in> set (take r (file_lines s) @ drop n (file_lines s)) \<Longrightarrow> no_breaks l"
  by (auto dest: in_set_takeD in_set_dropD intro: file_lines_no_breaks)

lemma load_tasks_unreadable:
  "read_text s = Inl e \<Longrightarrow> load_tasks s = Inr (ls, s1) \<Longrightarrow> ls = [''# Task List'', '''']"
  by (auto simp: load_tasks_def split: sum.splits)

lemma check_task_unreadable:
  assumes "read_text s = Inl e" and "check_task i s = Inr (st, s')"
  shows "st = TaskNotFound"
proof (cases "load_tasks s")
  case (Inl e')
  with assms(2) show ?thesis by (simp add: check_task_def)
next
  case (Inr p)
  obtain ls s1 where p: "p = (ls, s1)" by (cases p)
  with Inr assms(1) have "ls = [''# Task List'', '''']" by (simp add: load_tasks_unreadable)
  moreover have "task_indices [''# Task List'', []] = []" by code_simp
  ultimately have "task_indices ls = []" by simp
  moreover have "i < 1 \<or> 0 < i" by arith
  ultimately show ?thesis using assms(2) Inr p by (simp add: check_task_def)
qed

lemma check_task_out_of_range:
  assumes "read_text s = Inr t" and "i < 1 \<or> i > int (length (tasks_of s))"
  shows "check_task i s = Inr (TaskNotFound, s)"
  using assms(2)
  by (simp add: check_task_def load_tasks_file_lines [OF assms(1)] length_task_indices tasks_of_def)

lemma check_task_in_range:
  assumes "read_text s = Inr t" and "1 \<le> i" and "i \<le> int (length (tasks_of s))"
  shows "check_task i s =
     (if contains (lower (tasks_of s ! nat (i - 1))) ''[x]'' then Inr (AlreadyCompleted, s)
      else if writable s then
        Inr (CheckedOff i,
             s\<lparr>contents := Some (join [LF]
               ((file_lines s)[task_indices (file_lines s) ! nat (i - 1) :=
                  replace_first ''[ ]'' ''[x]'' (tasks_of s ! nat (i - 1))]) @ [LF])\<rparr>)
      else Inr (SaveFailed, s))"
proof -
  have k: "nat (i - 1) < length (filter is_task_line (file_lines s))"
    using assms(2,3) by (simp add: tasks_of_def)
  have line: "file_lines s ! (task_indices (file_lines s) ! nat (i - 1)) = tasks_of s ! nat (i - 1)"
    using nth_task_indices [OF k] by (simp add: tasks_of_def)
  have range: "\<not> (i < 1 \<or> i > int (length (task_indices (file_lines s))))"
    using assms(2,3) by (simp add: length_task_indices tasks_of_def)
  show ?thesis
    unfolding check_task_def load_tasks_file_lines [OF assms(1)]
    using range
    by (simp add: Let_def line save_tasks_writable save_tasks_unwritable)
qed

lemma check_task_checked_off:
  assumes "check_task i s = Inr (CheckedOff j, s')"
  shows "(\<exists>t. read_text s = Inr t) \<and> 1 \<le> i \<and> i \<le> int (length (tasks_of s)) \<and> j = i \<and>
         writable s \<and> \<not> contains (lower (tasks_of s ! nat (i - 1))) ''[x]'' \<and>
         s' = s\<lparr>contents := Some (join [LF]
               ((file_lines s)[task_indices (file_lines s) ! nat (i - 1) :=
                  replace_first ''[ ]'' ''[x]'' (tasks_of s ! nat (i - 1))]) @ [LF])\<rparr>"
proof -
  obtain t where rt: "read_text s = Inr t"
    using assms check_task_unreadable [of s _ i "CheckedOff j" s'] by (cases "read_text s") auto
  have range: "1 \<le> i \<and> i \<le> int (length (tasks_of s))"
    using assms check_task_out_of_range [OF rt, of i] by (cases "1 \<le> i \<and> i \<le> int (length (tasks_of s))") auto
  then have r1: "1 \<le> i" and r2: "i \<le> int (length (tasks_of s))" by simp_all
  show ?thesis
    using assms rt range unfolding check_task_in_range [OF rt r1 r2]
    by (auto split: if_splits)
qed

lemma updated_task_line:
  assumes "k < length (filter is_task_line ls)" and "is_task_line y"
  shows "task_indices (ls[task_indices ls ! k := y]) = task_indices ls"
    and "filter is_task_line (ls[task_indices ls ! k := y]) ! k = y"
    and "length (filter is_task_line (ls[task_indices ls ! k := y])) = length (filter is_task_line ls)"
proof -
  define r where "r = task_indices ls ! k"
  have r: "r < length ls" "is_task_line (ls ! r)"
    using nth_task_indices [OF assms(1)] assms(1) nth_mem [OF assms(1)] unfolding r_def by auto
  have "map is_task_line (ls[r := y]) = (map is_task_line ls)[r := is_task_line (ls ! r)]"
    using r(2) assms(2) by (simp add: map_update)
  also have "\<dots> = map is_task_line ls"
    using r(1) by (metis list_update_id nth_map)
  finally have ti: "task_indices (ls[r := y]) = task_indices ls"
    by (rule task_indices_cong)
  then show "task_indices (ls[task_indices ls ! k := y]) = task_indices ls"
    by (simp add: r_def)
  have len: "length (filter is_task_line (ls[r := y])) = length (filter is_task_line ls)"
    using ti by (metis length_task_indices)
  then show "length (filter is_task_line (ls[task_indices ls ! k := y])) = length (filter is_task_line ls)"
    by (simp add: r_def)
  have k': "k < length (filter is_task_line (ls[r := y]))" using len assms(1) by simp
  have "filter is_task_line (ls[r := y]) ! k = ls[r := y] ! (task_indices (ls[r := y]) ! k)"
    using nth_task_indices [OF k'] by simp
  also have "\<dots> = y" using r(1) by (simp add: ti r_def [symmetric])
  finally show "filter is_task_line (ls[task_indices ls ! k := y]) ! k = y"
    by (simp add: r_def)
qed

lemma updated_lines_no_breaks:
  assumes "no_breaks y" and "l \<in> set ((file_lines s)[r := y])"
  shows "no_breaks l"
proof -
  from assms(2) have "l = y \<or> l \<in> set (file_lines s)"
    using set_update_subset_insert [of "file_lines s" r y] by auto
  then show ?thesis using assms(1) by (auto intro: file_lines_no_breaks)
qed

lemma list_tasks_readable:
  assumes "read_text s = Inr t"
  shows "list_tasks s =
     Inr (map (\<lambda>(n, l). (n + 1, contains (lower l) ''[x]'', l))
            (zip [0..<length (tasks_of s)] (tasks_of s)), s)"
  by (simp add: list_tasks_def load_tasks_file_lines [OF assms] tasks_of_def Let_def)

lemma list_tasks_lines:
  "map (\<lambda>(n, c, l). l) (map (\<lambda>(n, l). (n + 1, f l, l)) (zip [0..<length ts] ts)) = ts"
proof -
  have a: "map (\<lambda>(n, c, l). l) (map (\<lambda>(n, l). (n + 1, f l, l)) zs) = map snd zs"
    for zs
    by (induction zs) auto
  show ?thesis unfolding a [of "zip [0..<length ts] ts"] by simp
qed

lemma list_tasks_ranks:
  "map (\<lambda>(n, c, l). n) (map (\<lambda>(n, l). (n + 1, f l, l)) (zip [0..<length ts] ts)) =
     [1..<Suc (length ts)]"
proof -
  have a: "map (\<lambda>(n, c, l). n) (map (\<lambda>(n, l). (n + 1, f l, l)) zs) = map Suc (map fst zs)"
    for zs
    by (induction zs) auto
  show ?thesis unfolding a [of "zip [0..<length ts] ts"] by (simp add: map_Suc_upt)
qed

section \<open>Appending to the file\<close>

lemma universal_newlines_append:
  "a = [] \<or> last a \<noteq> CR \<Longrightarrow>
     universal_newlines (a @ b) = universal_newlines a @ universal_newlines b"
proof (induction a rule: universal_newlines.induct)
  case 1
  show ?case by simp
next
  case (2 c)
  then have "c \<noteq> CR" by simp
  then show ?case by (cases b) simp_all
next
  case (3 c d cs)
  from "3.prems" have tl: "d # cs = [] \<or> last (d # cs) \<noteq> CR" by simp
  from "3.prems" have tl2: "cs = [] \<or> last cs \<noteq> CR" by (auto split: if_splits)
  show ?case
  proof (cases "c = CR \<and> d = LF")
    case True
    then show ?thesis using "3.IH"(1) [OF True tl2] by simp
  next
    case False
    show ?thesis
    proof (cases "c = CR")
      case True
      then show ?thesis using "3.IH"(2) [OF False True tl] False by simp
    next
      case nc: False
      then show ?thesis using "3.IH"(3) [OF False nc tl] by simp
    qed
  qed
qed

lemma universal_newlines_last:
  "a \<noteq> [] \<Longrightarrow> last a = LF \<Longrightarrow> universal_newlines a \<noteq> [] \<and> last (universal_newlines a) = LF"
proof (induction a rule: universal_newlines.induct)
  case 1
  then show ?case by simp
next
  case (2 c)
  then show ?case by simp
next
  case (3 c d cs)
  from "3.prems" have tl: "last (d # cs) = LF" by simp
  show ?case
  proof (cases "c = CR \<and> d = LF")
    case True
    show ?thesis
    proof (cases "cs = []")
      case Nil: True
      then show ?thesis using True by simp
    next
      case ne: False
      with "3.prems" have "last cs = LF" by simp
      then show ?thesis using "3.IH"(1) [OF True ne] True by simp
    qed
  next
    case False
    show ?thesis
    proof (cases "c = CR")
      case True
      then show ?thesis using "3.IH"(2) [OF False True _ tl] False by simp
    next
      case nc: False
      then show ?thesis using "3.IH"(3) [OF False nc _ tl] by simp
    qed
  qed
qed

lemma splitlines_from_append:
  "a \<noteq> [] \<Longrightarrow> last a = LF \<Longrightarrow>
     splitlines_from acc (a @ b) = splitlines_from acc a @ splitlines_from [] b"
proof (induction acc a rule: splitlines_from.induct)
  case (1 acc)
  then show ?case by simp
next
  case (2 acc c)
  then show ?case by (simp add: splitlines_from_break)
next
  case (3 acc c d cs)
  from "3.prems" have tl: "last (d # cs) = LF" by simp
  show ?case
  proof (cases "c = CR \<and> d = LF")
    case True
    show ?thesis
    proof (cases "cs = []")
      case Nil: True
      then show ?thesis using True by simp
    next
      case ne: False
      with "3.prems" have "last cs = LF" by simp
      then show ?thesis using "3.IH"(1) [OF True ne] True by simp
    qed
  next
    case False
    show ?thesis
    proof (cases "is_linebreak c")
      case True
      then show ?thesis using "3.IH"(2) [OF False True _ tl] False by auto
    next
      case nb: False
      then show ?thesis using "3.IH"(3) [OF False nb _ tl] False by auto
    qed
  qed
qed

lemma splitlines_append:
  "a = [] \<or> last a = LF \<Longrightarrow> splitlines (a @ b) = splitlines a @ splitlines b"
  by (cases "a = []") (simp_all add: splitlines_def splitlines_from_append)

lemma splitlines_one_line: "no_breaks l \<Longrightarrow> splitlines (l @ [LF]) = [l]"
  using splitlines_from_line [of l "[]" "[]"] by (simp add: splitlines_def)

lemma no_breaks_new_task: "no_breaks x \<Longrightarrow> no_breaks (''- [ ] '' @ x)"
  by (simp add: no_breaks_def is_linebreak_def)

lemma no_breaks_no_CR: "no_breaks x \<Longrightarrow> CR \<notin> set x"
  unfolding no_breaks_def using is_linebreak_CR by blast

lemma add_task_lines:
  assumes "contents s = Some raw" and "readable s" and "raw = [] \<or> last raw = LF"
    and "no_breaks (strip x)" and "add_task x s = (st, s')"
  shows "file_lines s' = file_lines s \<or>
         (st = Added (strip x) \<and> file_lines s' = file_lines s @ [''- [ ] '' @ strip x])"
proof (cases "strip x \<noteq> [] \<and> writable s")
  case False
  then have "s' = s" using assms(5) by (auto simp: add_task_def append_text_def split: if_splits)
  then show ?thesis by simp
next
  case True
  define new where "new = ''- [ ] '' @ strip x"
  have s': "s' = s\<lparr>contents := Some (raw @ new @ [LF])\<rparr>" and st: "st = Added (strip x)"
    using True assms(1,5) by (auto simp: add_task_def append_text_def new_def split: if_splits)
  have nb: "no_breaks new" unfolding new_def using assms(4) by (rule no_breaks_new_task)
  then have "CR \<notin> set (new @ [LF])" using no_breaks_no_CR by auto
  then have un: "universal_newlines (new @ [LF]) = new @ [LF]" by (rule universal_newlines_id)
  have "raw = [] \<or> last raw \<noteq> CR" using assms(3) by auto
  then have "universal_newlines (raw @ new @ [LF]) = universal_newlines raw @ new @ [LF]"
    using universal_newlines_append [of raw "new @ [LF]"] un by simp
  moreover have "universal_newlines raw = [] \<or> last (universal_newlines raw) = LF"
    using assms(3) universal_newlines_last [of raw] by (cases "raw = []") auto
  ultimately have "splitlines (universal_newlines (raw @ new @ [LF])) =
      splitlines (universal_newlines raw) @ splitlines (new @ [LF])"
    using splitlines_append [of "universal_newlines raw" "new @ [LF]"] by simp
  then have "file_lines s' = file_lines s @ [new]"
    using assms(1,2) nb by (simp add: s' file_lines_def read_text_def splitlines_one_line)
  then show ?thesis using st by (simp add: new_def)
qed

lemma is_task_line_new_task: "is_task_line (''- [ ] '' @ x)"
  by (simp add: is_task_line_def startswith_def)

lemma add_task_other_lines:
  assumes "contents s = Some raw" and "readable s" and "raw = [] \<or> last raw = LF"
    and "no_breaks (strip x)" and "add_task x s = (st, s')"
  shows "other_lines s' = other_lines s"
  using add_task_lines [OF assms] is_task_line_new_task [of "strip x"]
  by (auto simp: other_lines_def)

section \<open>The lines that are not tasks\<close>

lemma other_lines_saved:
  assumes "readable s" and "\<forall>l \<in> set ls. no_breaks l" and "ls \<noteq> []"
  shows "other_lines (s\<lparr>contents := Some (join [LF] ls @ [LF])\<rparr>) = filter (\<lambda>l. \<not> is_task_line l) ls"
  unfolding other_lines_def file_lines_saved [OF assms(1,2)] using assms(3) by simp

lemma check_task_other_lines:
  assumes "read_text s = Inr t" and "check_task i s = Inr (st, s')"
  shows "other_lines s' = other_lines s"
proof (cases "1 \<le> i \<and> i \<le> int (length (tasks_of s))")
  case False
  then have "check_task i s = Inr (TaskNotFound, s)"
    using check_task_out_of_range [OF assms(1), of i] by auto
  with assms(2) show ?thesis by simp
next
  case True
  then have i: "1 \<le> i" "i \<le> int (length (tasks_of s))" by simp_all
  define k where "k = nat (i - 1)"
  define ls where "ls = file_lines s"
  define y where "y = replace_first ''[ ]'' ''[x]'' (tasks_of s ! k)"
  have k: "k < length (filter is_task_line ls)"
    using i by (simp add: k_def ls_def tasks_of_def)
  have r: "task_indices ls ! k < length ls" "ls ! (task_indices ls ! k) = tasks_of s ! k"
    using nth_task_indices [OF k] by (simp_all add: tasks_of_def ls_def)
  have "tasks_of s ! k \<in> set (filter is_task_line ls)"
    unfolding tasks_of_def ls_def [symmetric] using k by (rule nth_mem)
  then have task: "is_task_line (tasks_of s ! k)" and "tasks_of s ! k \<in> set (file_lines s)"
    by (simp_all add: ls_def)
  then have "no_breaks (tasks_of s ! k)" by (simp add: file_lines_no_breaks)
  then have nby: "no_breaks y" unfolding y_def by (rule no_breaks_replace_first)
  have ty: "is_task_line y" unfolding y_def using task by (rule is_task_line_replace_first)
  have nb: "\<forall>l \<in> set (ls[task_indices ls ! k := y]). no_breaks l"
    unfolding ls_def using nby by (blast intro: updated_lines_no_breaks)
  have ne: "ls[task_indices ls ! k := y] \<noteq> []" using r(1) by auto
  have saved: "other_lines (s\<lparr>contents := Some (join [LF] (ls[task_indices ls ! k := y]) @ [LF])\<rparr>) =
      other_lines s"
    unfolding other_lines_saved [OF read_text_readable [OF assms(1)] nb ne]
    using filter_update_nth [of "task_indices ls ! k" ls is_task_line y] r task ty
    by (simp add: other_lines_def ls_def)
  show ?thesis
    using assms(2) saved
    unfolding check_task_in_range [OF assms(1) i] k_def [symmetric] ls_def [symmetric] y_def [symmetric]
    by (auto split: if_splits)
qed

lemma delete_task_out_of_range:
  assumes "read_text s = Inr t" and "i < 1 \<or> i > int (length (tasks_of s))"
  shows "delete_task i s = Inr (TaskNotFound, s)"
  using assms(2)
  by (simp add: delete_task_def load_tasks_file_lines [OF assms(1)] length_task_indices tasks_of_def)

lemma delete_task_in_range:
  assumes "read_text s = Inr t" and "1 \<le> i" and "i \<le> int (length (tasks_of s))"
  shows "delete_task i s =
     (if writable s then
        Inr (Deleted (strip (replace ''- [X]'' '''' (replace ''- [x]'' ''''
               (replace ''- [ ]'' '''' (tasks_of s ! nat (i - 1)))))),
             s\<lparr>contents := Some (join [LF]
               (take (task_indices (file_lines s) ! nat (i - 1)) (file_lines s) @
                drop (Suc (task_indices (file_lines s) ! nat (i - 1))) (file_lines s)) @ [LF])\<rparr>)
      else Inr (DeleteFailed, s))"
proof -
  have k: "nat (i - 1) < length (filter is_task_line (file_lines s))"
    using assms(2,3) by (simp add: tasks_of_def)
  have line: "file_lines s ! (task_indices (file_lines s) ! nat (i - 1)) = tasks_of s ! nat (i - 1)"
    using nth_task_indices [OF k] by (simp add: tasks_of_def)
  have range: "\<not> (i < 1 \<or> i > int (length (task_indices (file_lines s))))"
    using assms(2,3) by (simp add: length_task_indices tasks_of_def)
  show ?thesis
    unfolding delete_task_def load_tasks_file_lines [OF assms(1)]
    using range
    by (simp add: Let_def line save_tasks_writable save_tasks_unwritable)
qed

lemma delete_task_other_lines:
  assumes "read_text s = Inr t" and "other_lines s \<noteq> []" and "delete_task i s = Inr (st, s')"
  shows "other_lines s' = other_lines s"
proof (cases "1 \<le> i \<and> i \<le> int (length (tasks_of s))")
  case False
  then have "delete_task i s = Inr (TaskNotFound, s)"
    using delete_task_out_of_range [OF assms(1), of i] by auto
  with assms(3) show ?thesis by simp
next
  case True
  then have i: "1 \<le> i" "i \<le> int (length (tasks_of s))" by simp_all
  define ls where "ls = file_lines s"
  define r where "r = task_indices ls ! nat (i - 1)"
  have k: "nat (i - 1) < length (filter is_task_line ls)"
    using i by (simp add: ls_def tasks_of_def)
  have r: "r < length ls" "ls ! r = filter is_task_line ls ! nat (i - 1)"
    using nth_task_indices [OF k] by (simp_all add: r_def)
  have "filter is_task_line ls ! nat (i - 1) \<in> set (filter is_task_line ls)"
    using k by (rule nth_mem)
  then have task: "is_task_line (ls ! r)" using r(2) by simp
  have keep: "filter (\<lambda>l. \<not> is_task_line l) (take r ls @ drop (Suc r) ls) = other_lines s"
    using filter_remove_nth [OF r(1), of is_task_line] task by (simp add: other_lines_def ls_def)
  then have ne: "take r ls @ drop (Suc r) ls \<noteq> []" using assms(2) by (metis filter.simps(1))
  have nb: "\<forall>l \<in> set (take r ls @ drop (Suc r) ls). no_breaks l"
    unfolding ls_def by (blast intro: removed_lines_no_breaks)
  have saved: "other_lines (s\<lparr>contents := Some (join [LF] (take r ls @ drop (Suc r) ls) @ [LF])\<rparr>) =
      other_lines s"
    unfolding other_lines_saved [OF read_text_readable [OF assms(1)] nb ne] by (rule keep)
  show ?thesis
    using assms(3) saved
    unfolding delete_task_in_range [OF assms(1) i] ls_def [symmetric] r_def [symmetric]
    by (auto split: if_splits)
qed

lemma checked_prefix_is_task_line: "startswith l ''- [x]'' \<Longrightarrow> is_task_line l"
proof -
  assume "startswith l ''- [x]''"
  then have "take 5 l = ''- [x]''" by (simp add: startswith_def eval_nat_numeral)
  then have "take 3 (take 5 l) = ''- [''" by simp
  then show ?thesis by (simp add: is_task_line_take)
qed

lemma clear_done_tasks_readable:
  assumes "read_text s = Inr t"
  shows "clear_done_tasks s =
     (if writable s then
        Inr (ClearedDone (length (filter (\<lambda>l. startswith l ''- [x]'') (file_lines s))),
             s\<lparr>contents := Some (join [LF]
               (filter (\<lambda>l. \<not> startswith l ''- [x]'') (file_lines s)) @ [LF])\<rparr>)
      else Inr (ClearFailed, s))"
  by (simp add: clear_done_tasks_def load_tasks_file_lines [OF assms] Let_def
      save_tasks_writable save_tasks_unwritable)

lemma clear_done_tasks_other_lines:
  assumes "read_text s = Inr t" and "other_lines s \<noteq> []" and "clear_done_tasks s = Inr (st, s')"
  shows "other_lines s' = other_lines s"
proof -
  define ls' where "ls' = filter (\<lambda>l. \<not> startswith l ''- [x]'') (file_lines s)"
  have keep: "filter (\<lambda>l. \<not> is_task_line l) ls' = other_lines s"
    unfolding ls'_def other_lines_def filter_filter
    by (rule filter_cong) (auto dest: checked_prefix_is_task_line)
  then have ne: "ls' \<noteq> []" using assms(2) by (metis filter.simps(1))
  have nb: "\<forall>l \<in> set ls'. no_breaks l"
    unfolding ls'_def by (rule no_breaks_filter)
  have saved: "other_lines (s\<lparr>contents := Some (join [LF] ls' @ [LF])\<rparr>) = other_lines s"
    unfolding other_lines_saved [OF read_text_readable [OF assms(1)] nb ne] by (rule keep)
  show ?thesis
    using assms(3) saved
    unfolding clear_done_tasks_readable [OF assms(1)] ls'_def [symmetric]
    by (auto split: if_splits)
qed

lemma clear_all_tasks_readable:
  assumes "read_text s = Inr t"
  shows "clear_all_tasks s =
     (if tasks_of s = [] then Inr (NoTasksToClear, s)
      else if writable s then
        Inr (ClearedAll (length (tasks_of s)),
             s\<lparr>contents := Some (join [LF] (other_lines s) @ [LF])\<rparr>)
      else Inr (ClearFailed, s))"
  by (simp add: clear_all_tasks_def load_tasks_file_lines [OF assms] Let_def tasks_of_def
      other_lines_def save_tasks_writable save_tasks_unwritable)

lemma clear_all_tasks_other_lines:
  assumes "read_text s = Inr t" and "other_lines s \<noteq> []" and "clear_all_tasks s = Inr (st, s')"
  shows "other_lines s' = other_lines s"
proof -
  have nb: "\<forall>l \<in> set (other_lines s). no_breaks l"
    unfolding other_lines_def by (rule no_breaks_filter)
  have "other_lines (s\<lparr>contents := Some (join [LF] (other_lines s) @ [LF])\<rparr>) =
      filter (\<lambda>l. \<not> is_task_line l) (other_lines s)"
    using read_text_readable [OF assms(1)] nb assms(2) by (rule other_lines_saved)
  then have saved: "other_lines (s\<lparr>contents := Some (join [LF] (other_lines s) @ [LF])\<rparr>) =
      other_lines s"
    by (simp add: other_lines_def)
  show ?thesis
    using assms(3) saved unfolding clear_all_tasks_readable [OF assms(1)]
    by (auto split: if_splits)
qed

section \<open>The confirmation of clearall\<close>

lemma lower_char_y: "lower_char c = CHR ''y'' \<longleftrightarrow> c = CHR ''y'' \<or> c = CHR ''Y''"
  by (auto simp: lower_char_def upper_letters_def lower_letters_def split: if_splits)

lemma lower_y: "lower a = ''y'' \<longleftrightarrow> a = ''y'' \<or> a = ''Y''"
  by (cases a) (auto simp: lower_def lower_char_y)

section \<open>An unreadable file\<close>

lemma ensure_task_file_unreadable:
  "read_text s = Inl e \<Longrightarrow> ensure_task_file s = write_text header_text s"
  by (simp add: ensure_task_file_def)

lemma load_tasks_repaired:
  "read_text s = Inl e \<Longrightarrow>
     load_tasks s =
       (if writable s then Inr ([''# Task List'', ''''], s\<lparr>contents := Some header_text\<rparr>)
        else Inl OSError)"
  by (simp add: load_tasks_def ensure_task_file_unreadable write_text_def)

lemma clear_all_tasks_unreadable:
  "read_text s = Inl e \<Longrightarrow>
     clear_all_tasks s =
       (if writable s then Inr (NoTasksToClear, s\<lparr>contents := Some header_text\<rparr>)
        else Inl OSError)"
  by (simp add: clear_all_tasks_def load_tasks_repaired is_task_line_def startswith_def)

section \<open>Deleting by rank\<close>

lemma delete_task_rank:
  fixes i :: int
  assumes "1 \<le> i" and "i \<le> int (length (tasks_of s))" and "writable s"
  shows "\<exists>r s'.
      r < length (file_lines s) \<and>
      file_lines s ! r = tasks_of s ! nat (i - 1) \<and>
      filter is_task_line (take r (file_lines s)) = take (nat (i - 1)) (tasks_of s) \<and>
      delete_task i s =
        Inr (Deleted (strip (replace ''- [X]'' '''' (replace ''- [x]'' ''''
               (replace ''- [ ]'' '''' (tasks_of s ! nat (i - 1)))))), s') \<and>
      (\<forall>m body. tasks_of s ! nat (i - 1) = ''- ['' @ [m] @ '']'' @ body \<and>
         (m = CHR '' '' \<or> m = CHR ''x'' \<or> m = CHR ''X'') \<and>
         \<not> contains body ''- [ ]'' \<and> \<not> contains body ''- [x]'' \<and> \<not> contains body ''- [X]'' \<longrightarrow>
           delete_task i s = Inr (Deleted (strip body), s')) \<and>
      contents s' = Some (join [LF] (take r (file_lines s) @ drop (Suc r) (file_lines s)) @ [LF]) \<and>
      tasks_of s' = take (nat (i - 1)) (tasks_of s) @ drop (nat i) (tasks_of s) \<and>
      length (tasks_of s') + 1 = length (tasks_of s) \<and>
      (\<forall>j. j < nat (i - 1) \<longrightarrow> tasks_of s' ! j = tasks_of s ! j) \<and>
      (\<forall>j. nat (i - 1) \<le> j \<and> j < length (tasks_of s') \<longrightarrow>
           tasks_of s' ! j = tasks_of s ! (j + 1))"
proof -
  define k where "k = nat (i - 1)"
  define ls where "ls = file_lines s"
  define ts where "ts = tasks_of s"
  have ts: "ts = filter is_task_line ls"
    by (simp add: ts_def ls_def tasks_of_def)
  have k: "k < length ts" and i: "nat i = Suc k"
    using assms(1,2) by (simp_all add: k_def ts_def)
  then have "tasks_of s \<noteq> []" by (auto simp: ts_def)
  then obtain t where rt: "read_text s = Inr t"
    using tasks_nonempty_readable by blast
  define r where "r = task_indices ls ! k"
  have r: "r < length ls" "ls ! r = ts ! k" "filter is_task_line (take r ls) = take k ts"
    "filter is_task_line (drop (Suc r) ls) = drop (Suc k) ts"
    using nth_task_indices [of k ls] k unfolding ts r_def by simp_all
  define ls' where "ls' = take r ls @ drop (Suc r) ls"
  define s' where "s' = s\<lparr>contents := Some (join [LF] ls' @ [LF])\<rparr>"
  have del: "delete_task i s =
      Inr (Deleted (strip (replace ''- [X]'' '''' (replace ''- [x]'' ''''
             (replace ''- [ ]'' '''' (ts ! k))))), s')"
    unfolding delete_task_in_range [OF rt assms(1,2)]
    using assms(3) by (simp add: s'_def ls'_def r_def ls_def ts_def k_def)
  have plain: "\<forall>m body. ts ! k = ''- ['' @ [m] @ '']'' @ body \<and>
         (m = CHR '' '' \<or> m = CHR ''x'' \<or> m = CHR ''X'') \<and>
         \<not> contains body ''- [ ]'' \<and> \<not> contains body ''- [x]'' \<and> \<not> contains body ''- [X]'' \<longrightarrow>
           delete_task i s = Inr (Deleted (strip body), s')"
    using del deleted_text_plain by metis
  have nb: "\<forall>l \<in> set ls'. no_breaks l"
    unfolding ls'_def ls_def by (blast intro: removed_lines_no_breaks)
  have "tasks_of s' = filter is_task_line ls'"
    unfolding s'_def using read_text_readable [OF rt] nb by (rule tasks_of_saved)
  then have ts': "tasks_of s' = take k ts @ drop (Suc k) ts"
    using r(3,4) by (simp add: ls'_def)
  have len: "length (tasks_of s') + 1 = length ts"
    using k by (simp add: ts')
  have before: "\<forall>j. j < k \<longrightarrow> tasks_of s' ! j = ts ! j"
    using k by (simp add: ts' nth_append)
  have after: "\<forall>j. k \<le> j \<and> j < length (tasks_of s') \<longrightarrow> tasks_of s' ! j = ts ! (j + 1)"
    using k len by (auto simp: ts' nth_append min_def)
  have c: "contents s' = Some (join [LF] (take r ls @ drop (Suc r) ls) @ [LF])"
    by (simp add: s'_def ls'_def)
  show ?thesis
    unfolding i k_def [symmetric] ts_def [symmetric] ls_def [symmetric]
    using r(1,2,3) del plain c ts' len before after by blast
qed

section \<open>The frame of the operations on a readable file\<close>

lemma operations_keep_other_lines:
  assumes "read_text s = Inr t"
  shows "(check_task i s = Inr (st, s') \<longrightarrow> other_lines s' = other_lines s) \<and>
         (other_lines s \<noteq> [] \<and> delete_task i s = Inr (st, s') \<longrightarrow>
            other_lines s' = other_lines s) \<and>
         (other_lines s \<noteq> [] \<and> clear_done_tasks s = Inr (st, s') \<longrightarrow>
            other_lines s' = other_lines s) \<and>
         (other_lines s \<noteq> [] \<and> clear_all_tasks s = Inr (st, s') \<longrightarrow>
            other_lines s' = other_lines s) \<and>
         ((contents s = Some [] \<or> (\<exists>raw. contents s = Some (raw @ [LF]))) \<and>
          no_breaks (strip x) \<and> add_task x s = (st, s') \<longrightarrow>
            other_lines s' = other_lines s)"
proof (intro conjI impI)
  assume "check_task i s = Inr (st, s')"
  with assms show "other_lines s' = other_lines s" by (rule check_task_other_lines)
next
  assume "other_lines s \<noteq> [] \<and> delete_task i s = Inr (st, s')"
  then show "other_lines s' = other_lines s"
    using delete_task_other_lines [OF assms] by blast
next
  assume "other_lines s \<noteq> [] \<and> clear_done_tasks s = Inr (st, s')"
  then show "other_lines s' = other_lines s"
    using clear_done_tasks_other_lines [OF assms] by blast
next
  assume "other_lines s \<noteq> [] \<and> clear_all_tasks s = Inr (st, s')"
  then show "other_lines s' = other_lines s"
    using clear_all_tasks_other_lines [OF assms] by blast
next
  assume a: "(contents s = Some [] \<or> (\<exists>raw. contents s = Some (raw @ [LF]))) \<and>
          no_breaks (strip x) \<and> add_task x s = (st, s')"
  then obtain raw where raw: "contents s = Some raw" "raw = [] \<or> last raw = LF" by auto
  show "other_lines s' = other_lines s"
    using raw(1) read_text_readable [OF assms] raw(2) a
    by (blast intro: add_task_other_lines)
qed

section \<open>Claims\<close>

subsection \<open>C1: when check reports a task as already complete\<close>

text \<open>
  C1, the code at the failing input.  The file holds one task, \<open>- [ ] fix [x] bug\<close>, whose
  box is empty.  \<open>check_task 1\<close> answers "Already completed." and writes nothing, because
  it looks for \<open>[x]\<close> anywhere in the lower-cased line; \<open>clear_done_tasks\<close>, which tests
  the prefix \<open>- [x]\<close>, does not count the same task as complete.
\<close>

theorem check_task_text_with_checked_box:
  "check_task 1 (task_file (header_text @ ''- [ ] fix [x] bug'' @ [LF])) =
     Inr (AlreadyCompleted, task_file (header_text @ ''- [ ] fix [x] bug'' @ [LF])) \<and>
   clear_done_tasks (task_file (header_text @ ''- [ ] fix [x] bug'' @ [LF])) =
     Inr (ClearedDone 0, task_file (header_text @ ''- [ ] fix [x] bug'' @ [LF]))"
  by code_simp

subsection \<open>C2: clearing the completed tasks\<close>

text \<open>
  C2, the code at the failing input.  The file holds one task, \<open>- [X] done\<close>.
  \<open>clear_done_tasks\<close> reports 0 removed and writes the line back, because it tests the
  prefix \<open>- [x]\<close> as written; \<open>check_task\<close> and \<open>list_tasks\<close> lower-case the line
  first and treat the same task as complete.
\<close>

theorem clear_done_tasks_capital_marker:
  "clear_done_tasks (task_file (header_text @ ''- [X] done'' @ [LF])) =
     Inr (ClearedDone 0, task_file (header_text @ ''- [X] done'' @ [LF])) \<and>
   check_task 1 (task_file (header_text @ ''- [X] done'' @ [LF])) =
     Inr (AlreadyCompleted, task_file (header_text @ ''- [X] done'' @ [LF])) \<and>
   list_tasks (task_file (header_text @ ''- [X] done'' @ [LF])) =
     Inr ([(1, True, ''- [X] done'')], task_file (header_text @ ''- [X] done'' @ [LF]))"
  by code_simp

subsection \<open>C3: the confirmation of clearall\<close>

text \<open>
  C3, as stated, fails: the answer is stripped and lower-cased before it is compared with
  \<open>y\<close>, so the capital \<open>Y\<close> confirms and the tasks are removed.
\<close>

theorem clearall_confirmation_counterexample:
  "shell_command ''clearall'' [Line ''Y''] (task_file (header_text @ ''- [ ] a'' @ [LF])) =
     Inr (Some (ClearedAll 1), [], task_file header_text) \<and>
   run_shell [Line ''clearall'', Line ''Y''] (task_file (header_text @ ''- [ ] a'' @ [LF])) =
     Inr ([([(1, False, ''- [ ] a'')], None), ([], Some (ClearedAll 1))], task_file header_text) \<and>
   task_file header_text \<noteq> task_file (header_text @ ''- [ ] a'' @ [LF])"
  by code_simp

text \<open>
  C3, amended: in the shell's \<open>clearall\<close> branch an answer confirms exactly when, with the
  surrounding whitespace removed, it is \<open>y\<close> or \<open>Y\<close>; the shell then runs
  \<open>clear_all_tasks\<close>.  Every other answer, an interrupt and the end of the input give the
  status "Cancelled." and leave the file as it was.
\<close>

theorem clearall_confirmation:
  "(strip answer = ''y'' \<or> strip answer = ''Y'' \<longrightarrow>
      shell_command ''clearall'' (Line answer # rest) s =
        (case clear_all_tasks s of
           Inl e \<Rightarrow> Inl e
         | Inr (st, s') \<Rightarrow> Inr (Some st, rest, s'))) \<and>
   (strip answer \<noteq> ''y'' \<and> strip answer \<noteq> ''Y'' \<longrightarrow>
      shell_command ''clearall'' (Line answer # rest) s = Inr (Some Cancelled, rest, s)) \<and>
   shell_command ''clearall'' (Interrupt # rest) s = Inr (Some Cancelled, rest, s) \<and>
   shell_command ''clearall'' [] s = Inr (Some Cancelled, [], s)"
proof -
  have branch: "\<not> startswith ''clearall'' ''add '' \<and> \<not> startswith ''clearall'' ''check '' \<and>
      \<not> startswith ''clearall'' ''delete '' \<and> ''clearall'' \<noteq> ''clear''"
    by (simp add: startswith_def)
  show ?thesis
    unfolding shell_command_def using branch
    by (simp add: Let_def lower_y)
qed

text \<open>C3, witness: the answer \<open>y\<close> between blanks confirms, the answer \<open>yes\<close> cancels.\<close>

theorem clearall_confirmation_witness:
  "shell_command ''clearall'' [Line '' y ''] (task_file (header_text @ ''- [ ] a'' @ [LF])) =
     Inr (Some (ClearedAll 1), [], task_file header_text) \<and>
   shell_command ''clearall'' [Line ''yes''] (task_file (header_text @ ''- [ ] a'' @ [LF])) =
     Inr (Some Cancelled, [], task_file (header_text @ ''- [ ] a'' @ [LF]))"
proof -
  have y: "strip '' y '' = ''y'' \<or> strip '' y '' = ''Y''" by code_simp
  have n: "strip ''yes'' \<noteq> ''y'' \<and> strip ''yes'' \<noteq> ''Y''" by code_simp
  have c: "clear_all_tasks (task_file (header_text @ ''- [ ] a'' @ [LF])) =
             Inr (ClearedAll 1, task_file header_text)"
    by code_simp
  have "shell_command ''clearall'' (Line '' y '' # []) (task_file (header_text @ ''- [ ] a'' @ [LF])) =
          (case clear_all_tasks (task_file (header_text @ ''- [ ] a'' @ [LF])) of
             Inl e \<Rightarrow> Inl e
           | Inr (st, s') \<Rightarrow> Inr (Some st, [], s'))"
    using clearall_confirmation [of "'' y ''" "[]" "task_file (header_text @ ''- [ ] a'' @ [LF])"] y
    by blast
  then have a: "shell_command ''clearall'' [Line '' y ''] (task_file (header_text @ ''- [ ] a'' @ [LF])) =
      Inr (Some (ClearedAll 1), [], task_file header_text)"
    unfolding c by simp
  have b: "shell_command ''clearall'' [Line ''yes''] (task_file (header_text @ ''- [ ] a'' @ [LF])) =
      Inr (Some Cancelled, [], task_file (header_text @ ''- [ ] a'' @ [LF]))"
    using clearall_confirmation [of "''yes''" "[]" "task_file (header_text @ ''- [ ] a'' @ [LF])"] n
    by blast
  show ?thesis using a b by blast
qed

subsection \<open>C4: the text of a task added in the shell\<close>

text \<open>
  C4, the code at the failing input.  In the shell the line \<open>add Buy Milk\<close> stores the task
  \<open>- [ ] buy milk\<close>: the whole input line is lower-cased before the text is taken from
  it.  The command line \<open>smallt add Buy Milk\<close> stores \<open>- [ ] Buy Milk\<close>.
\<close>

theorem shell_add_lowers_text:
  "shell_command (lower (strip ''add Buy Milk'')) [] (task_file header_text) =
     Inr (Some (Added ''buy milk''), [], task_file (header_text @ ''- [ ] buy milk'' @ [LF])) \<and>
   run_shell [Line ''add Buy Milk''] (task_file header_text) =
     Inr ([([], None), ([(1, False, ''- [ ] buy milk'')], Some (Added ''buy milk''))],
          task_file (header_text @ ''- [ ] buy milk'' @ [LF])) \<and>
   main [''add'', ''Buy'', ''Milk''] [] (task_file header_text) =
     Inr (Printed (Added ''Buy Milk''), task_file (header_text @ ''- [ ] Buy Milk'' @ [LF]))"
  by code_simp

subsection \<open>C5: saving what was loaded\<close>

text \<open>
  C5, as stated, fails: \<open>splitlines\<close> also ends a line at a form feed (and at VT, CR, FS,
  GS, RS, NEL), and \<open>save_tasks\<close> joins the lines with LF.  A file \<open>a\<close> FF \<open>b\<close> LF is
  written back as \<open>a\<close> LF \<open>b\<close> LF, which is not the file with a final newline added.
\<close>

theorem save_load_roundtrip_counterexample:
  "save_loaded (task_file (''a'' @ [CHR 0x0C] @ ''b'' @ [LF])) =
     Inr (True, task_file (''a'' @ [LF] @ ''b'' @ [LF])) \<and>
   ''a'' @ [LF] @ ''b'' @ [LF] \<noteq> with_final_newline (''a'' @ [CHR 0x0C] @ ''b'' @ [LF])"
  by code_simp

text \<open>
  C5, amended: when LF is the only line boundary that occurs in a readable and writable
  file, loading it and saving the result writes the same text, with a final LF added when
  the text does not end with one (the empty file becomes a single LF).
\<close>

theorem save_load_roundtrip:
  assumes "contents s = Some raw" and "readable s" and "writable s" and "only_lf raw"
  shows "save_loaded s = Inr (True, s\<lparr>contents := Some (with_final_newline raw)\<rparr>)"
proof -
  have "universal_newlines raw = raw"
    using assms(4) by (intro universal_newlines_id only_lf_no_CR)
  then have "read_text s = Inr raw" using assms(1,2) by (simp add: read_text_def)
  then have "load_tasks s = Inr (splitlines raw, s)" by (rule load_tasks_readable)
  then show ?thesis
    using assms(3,4) by (simp add: save_loaded_def save_tasks_writable join_splitlines)
qed

text \<open>C5, witness: a file whose last line has no final newline gets one.\<close>

theorem save_load_roundtrip_witness:
  "only_lf (''# Task List'' @ [LF, LF] @ ''- [ ] a'') \<and>
   save_loaded (task_file (''# Task List'' @ [LF, LF] @ ''- [ ] a'')) =
     Inr (True, task_file (''# Task List'' @ [LF, LF] @ ''- [ ] a'' @ [LF]))"
  using save_load_roundtrip [of "task_file (''# Task List'' @ [LF, LF] @ ''- [ ] a'')"
                               "''# Task List'' @ [LF, LF] @ ''- [ ] a''"]
  by (simp add: task_file_def only_lf_def is_linebreak_def with_final_newline_def)

subsection \<open>C6: deleting the task of rank i\<close>

text \<open>
  C6, the code at the failing input.  The task \<open>pay - [x] bill\<close> is added from the command
  line and stored as \<open>- [ ] pay - [x] bill\<close>.  Deleting it reports \<open>pay  bill\<close>:
  \<open>delete_task\<close> takes every occurrence of \<open>- [ ]\<close>, \<open>- [x]\<close> and \<open>- [X]\<close> out of the
  line, also inside the text of the task.  (The count, the position and the ranks are as
  the claim says: lemma \<open>delete_task_rank\<close>.)
\<close>

theorem delete_task_text_with_marker:
  "main [''add'', ''pay'', ''-'', ''[x]'', ''bill''] [] (task_file header_text) =
     Inr (Printed (Added ''pay - [x] bill''), task_file (header_text @ ''- [ ] pay - [x] bill'' @ [LF])) \<and>
   delete_task 1 (task_file (header_text @ ''- [ ] pay - [x] bill'' @ [LF])) =
     Inr (Deleted ''pay  bill'', task_file header_text)"
  by code_simp

subsection \<open>C7: checking the same rank twice\<close>

text \<open>
  C7, as stated, fails: on the line \<open>- [?] note\<close> the first \<open>check_task 1\<close> succeeds
  without changing the line, and the second one succeeds again instead of answering
  "Already completed.".
\<close>

theorem check_task_twice_counterexample:
  "check_task 1 (task_file (header_text @ ''- [?] note'' @ [LF])) =
     Inr (CheckedOff 1, task_file (header_text @ ''- [?] note'' @ [LF])) \<and>
   check_task 1 (task_file (header_text @ ''- [?] note'' @ [LF])) \<noteq>
     Inr (AlreadyCompleted, task_file (header_text @ ''- [?] note'' @ [LF]))"
  by code_simp

text \<open>
  C7, amended: if \<open>check_task i\<close> succeeds on a task line that contains a box \<open>[ ]\<close>, then
  \<open>check_task i\<close> on the resulting file answers "Already completed." and leaves that file
  as it is.
\<close>

theorem check_task_twice:
  assumes "check_task i s = Inr (CheckedOff j, s')"
    and "contains (tasks_of s ! nat (i - 1)) ''[ ]''"
  shows "check_task i s' = Inr (AlreadyCompleted, s')"
proof -
  define k where "k = nat (i - 1)"
  define ls where "ls = file_lines s"
  define line where "line = tasks_of s ! k"
  define line' where "line' = replace_first ''[ ]'' ''[x]'' line"
  define ls' where "ls' = ls[task_indices ls ! k := line']"
  from check_task_checked_off [OF assms(1)]
  obtain t where rt: "read_text s = Inr t"
    and i: "1 \<le> i" "i \<le> int (length (tasks_of s))"
    and s': "s' = s\<lparr>contents := Some (join [LF] ls' @ [LF])\<rparr>"
    unfolding ls'_def line'_def line_def ls_def k_def by blast
  have k: "k < length (filter is_task_line ls)"
    using i by (simp add: k_def ls_def tasks_of_def)
  then have "line \<in> set (filter is_task_line ls)"
    unfolding line_def tasks_of_def ls_def by (rule nth_mem)
  then have task: "is_task_line line" and "line \<in> set (file_lines s)"
    by (simp_all add: ls_def)
  then have "no_breaks line" by (simp add: file_lines_no_breaks)
  then have nb': "no_breaks line'" unfolding line'_def by (rule no_breaks_replace_first)
  have task': "is_task_line line'"
    unfolding line'_def using task by (rule is_task_line_replace_first)
  have nb: "\<forall>l \<in> set ls'. no_breaks l"
    unfolding ls'_def ls_def using nb' by (blast intro: updated_lines_no_breaks)
  have ne: "ls' \<noteq> []" using k by (auto simp: ls'_def)
  have rd: "readable s" using rt by (rule read_text_readable)
  have lines': "file_lines s' = ls'"
    unfolding s' using file_lines_saved [OF rd nb] ne by simp
  have rt': "read_text s' = Inr (universal_newlines (join [LF] ls' @ [LF]))"
    using rd by (simp add: s' read_text_def)
  have len': "length (tasks_of s') = length (tasks_of s)"
    unfolding tasks_of_def lines' ls'_def using updated_task_line(3) [OF k task']
    by (simp add: ls_def)
  have nth': "tasks_of s' ! nat (i - 1) = line'"
    unfolding tasks_of_def lines' ls'_def using updated_task_line(2) [OF k task']
    by (simp add: k_def)
  have "contains line' ''[x]''"
    unfolding line'_def using assms(2) by (simp add: contains_replace_first line_def k_def)
  then have checked: "contains (lower (tasks_of s' ! nat (i - 1))) ''[x]''"
    unfolding nth' by (rule contains_lower)
  have i': "i \<le> int (length (tasks_of s'))" using i(2) len' by simp
  show ?thesis
    unfolding check_task_in_range [OF rt' i(1) i'] using checked by simp
qed

text \<open>C7, witness: a task with an empty box, checked twice.\<close>

theorem check_task_twice_witness:
  "check_task 1 (task_file (header_text @ ''- [ ] a'' @ [LF])) =
     Inr (CheckedOff 1, task_file (header_text @ ''- [x] a'' @ [LF])) \<and>
   check_task 1 (task_file (header_text @ ''- [x] a'' @ [LF])) =
     Inr (AlreadyCompleted, task_file (header_text @ ''- [x] a'' @ [LF]))"
proof -
  have first: "check_task 1 (task_file (header_text @ ''- [ ] a'' @ [LF])) =
      Inr (CheckedOff 1, task_file (header_text @ ''- [x] a'' @ [LF]))"
    by code_simp
  have box: "contains (tasks_of (task_file (header_text @ ''- [ ] a'' @ [LF])) ! nat (1 - 1)) ''[ ]''"
    by code_simp
  show ?thesis using first check_task_twice [OF first box] by blast
qed

subsection \<open>C8: clearing all tasks\<close>

text \<open>
  C8, as stated, fails when the file cannot be read or is absent: \<open>load_tasks\<close> then
  rewrites the file with the header alone and returns no task line, so \<open>clear_all_tasks\<close>
  answers "No tasks to clear." after a write.  An unreadable file that held a task has lost
  it; an absent file has been created.
\<close>

theorem clear_all_tasks_spec_counterexample:
  "clear_all_tasks (unreadable_file (header_text @ ''- [ ] a'' @ [LF])) =
     Inr (NoTasksToClear, unreadable_file header_text) \<and>
   unreadable_file header_text \<noteq> unreadable_file (header_text @ ''- [ ] a'' @ [LF]) \<and>
   clear_all_tasks absent_file = Inr (NoTasksToClear, task_file header_text) \<and>
   task_file header_text \<noteq> absent_file"
  by code_simp

text \<open>
  C8, amended: on a readable file without task lines \<open>clear_all_tasks\<close> answers
  "No tasks to clear." and the file state is the one it started from (nothing is written).
  On a readable file with task lines, when the write succeeds, it writes back the lines
  that are not tasks, reports the number of task lines, and the file read again has no
  task line.  When the file is absent or cannot be read and can be written, the file is
  rewritten with the header alone and the answer is "No tasks to clear.".
\<close>

theorem clear_all_tasks_spec:
  "(read_text s = Inr text \<and> tasks_of s = [] \<longrightarrow> clear_all_tasks s = Inr (NoTasksToClear, s)) \<and>
   (read_text s = Inr text \<and> tasks_of s \<noteq> [] \<and> writable s \<longrightarrow>
      clear_all_tasks s =
        Inr (ClearedAll (length (tasks_of s)),
             s\<lparr>contents := Some (join [LF] (other_lines s) @ [LF])\<rparr>) \<and>
      tasks_of (s\<lparr>contents := Some (join [LF] (other_lines s) @ [LF])\<rparr>) = [] \<and>
      other_lines (s\<lparr>contents := Some (join [LF] (other_lines s) @ [LF])\<rparr>) =
        (if other_lines s = [] then [[]] else other_lines s)) \<and>
   (read_text s = Inl e \<and> writable s \<longrightarrow>
      clear_all_tasks s = Inr (NoTasksToClear, s\<lparr>contents := Some header_text\<rparr>))"
proof (intro conjI impI)
  assume a: "read_text s = Inr text \<and> tasks_of s = []"
  then show "clear_all_tasks s = Inr (NoTasksToClear, s)"
    using clear_all_tasks_readable [of s "text"] by simp
next
  assume a: "read_text s = Inr text \<and> tasks_of s \<noteq> [] \<and> writable s"
  then show "clear_all_tasks s =
        Inr (ClearedAll (length (tasks_of s)),
             s\<lparr>contents := Some (join [LF] (other_lines s) @ [LF])\<rparr>)"
    using clear_all_tasks_readable [of s "text"] by simp
next
  assume a: "read_text s = Inr text \<and> tasks_of s \<noteq> [] \<and> writable s"
  then have rd: "readable s" using read_text_readable by blast
  have nb: "\<forall>l \<in> set (other_lines s). no_breaks l"
    unfolding other_lines_def by (rule no_breaks_filter)
  show "tasks_of (s\<lparr>contents := Some (join [LF] (other_lines s) @ [LF])\<rparr>) = []"
    unfolding tasks_of_saved [OF rd nb] by (simp add: other_lines_def)
next
  assume a: "read_text s = Inr text \<and> tasks_of s \<noteq> [] \<and> writable s"
  then have rd: "readable s" using read_text_readable by blast
  have nb: "\<forall>l \<in> set (other_lines s). no_breaks l"
    unfolding other_lines_def by (rule no_breaks_filter)
  show "other_lines (s\<lparr>contents := Some (join [LF] (other_lines s) @ [LF])\<rparr>) =
        (if other_lines s = [] then [[]] else other_lines s)"
    unfolding other_lines_def [of "s\<lparr>contents := Some (join [LF] (other_lines s) @ [LF])\<rparr>"]
      file_lines_saved [OF rd nb]
    by (simp add: other_lines_def)
next
  assume "read_text s = Inl e \<and> writable s"
  then show "clear_all_tasks s = Inr (NoTasksToClear, s\<lparr>contents := Some header_text\<rparr>)"
    using clear_all_tasks_unreadable [of s e] by simp
qed

text \<open>
  C8, witness: a file with only the header, a file with one task and a note, and an
  unreadable file.
\<close>

theorem clear_all_tasks_spec_witness:
  "clear_all_tasks (task_file header_text) = Inr (NoTasksToClear, task_file header_text) \<and>
   clear_all_tasks (task_file (header_text @ ''- [ ] a'' @ [LF] @ ''note'' @ [LF])) =
     Inr (ClearedAll 1, task_file (header_text @ ''note'' @ [LF])) \<and>
   clear_all_tasks (unreadable_file ''junk'') = Inr (NoTasksToClear, unreadable_file header_text)"
proof -
  have r0: "read_text (task_file header_text) = Inr header_text"
    by (rule read_text_task_file) (simp add: header_text_def)
  have r1: "read_text (task_file (header_text @ ''- [ ] a'' @ [LF] @ ''note'' @ [LF])) =
              Inr (header_text @ ''- [ ] a'' @ [LF] @ ''note'' @ [LF])"
    by (rule read_text_task_file) (simp add: header_text_def)
  have r2: "read_text (unreadable_file ''junk'') = Inl OSError"
    by code_simp
  have t0: "tasks_of (task_file header_text) = []"
    by code_simp
  have t1: "tasks_of (task_file (header_text @ ''- [ ] a'' @ [LF] @ ''note'' @ [LF])) = [''- [ ] a'']"
    by code_simp
  have o1: "join [LF] (other_lines (task_file (header_text @ ''- [ ] a'' @ [LF] @ ''note'' @ [LF]))) @ [LF] =
              header_text @ ''note'' @ [LF]"
    by code_simp
  have ne: "tasks_of (task_file (header_text @ ''- [ ] a'' @ [LF] @ ''note'' @ [LF])) \<noteq> []"
    unfolding t1 by simp
  have w: "writable (task_file (header_text @ ''- [ ] a'' @ [LF] @ ''note'' @ [LF]))"
    by (rule task_file_sel)
  have w2: "writable (unreadable_file ''junk'')" by code_simp
  have u2: "unreadable_file ''junk''\<lparr>contents := Some header_text\<rparr> = unreadable_file header_text"
    by code_simp
  have a: "clear_all_tasks (task_file header_text) = Inr (NoTasksToClear, task_file header_text)"
    using clear_all_tasks_spec [of "task_file header_text" header_text] r0 t0 by blast
  have "clear_all_tasks (task_file (header_text @ ''- [ ] a'' @ [LF] @ ''note'' @ [LF])) =
          Inr (ClearedAll (length (tasks_of (task_file (header_text @ ''- [ ] a'' @ [LF] @ ''note'' @ [LF])))),
               task_file (header_text @ ''- [ ] a'' @ [LF] @ ''note'' @ [LF])
                 \<lparr>contents := Some (join [LF] (other_lines
                    (task_file (header_text @ ''- [ ] a'' @ [LF] @ ''note'' @ [LF]))) @ [LF])\<rparr>)"
    using clear_all_tasks_spec [of "task_file (header_text @ ''- [ ] a'' @ [LF] @ ''note'' @ [LF])"
        "header_text @ ''- [ ] a'' @ [LF] @ ''note'' @ [LF]"] r1 ne w
    by blast
  then have b: "clear_all_tasks (task_file (header_text @ ''- [ ] a'' @ [LF] @ ''note'' @ [LF])) =
      Inr (ClearedAll 1, task_file (header_text @ ''note'' @ [LF]))"
    unfolding t1 o1 task_file_sel by simp
  have "clear_all_tasks (unreadable_file ''junk'') =
      Inr (NoTasksToClear, unreadable_file ''junk''\<lparr>contents := Some header_text\<rparr>)"
    using clear_all_tasks_spec [of "unreadable_file ''junk''" _ OSError] r2 w2 by blast
  then have c: "clear_all_tasks (unreadable_file ''junk'') = Inr (NoTasksToClear, unreadable_file header_text)"
    unfolding u2 .
  show ?thesis using a b c by blast
qed

subsection \<open>C9: the lines that are not tasks\<close>

text \<open>
  C9, the code at the failing input.  The last line \<open>notes\<close> of the file has no final
  newline.  \<open>smallt add x\<close> appends to the file without reading it: the answer is
  "Added: x", the line \<open>notes\<close> has become \<open>notes- [ ] x\<close> and the file has no task line.
  \<open>clear_done_tasks\<close> on the same file keeps the line \<open>notes\<close> and ends it with a newline.
  (On a readable file the other operations keep the lines that are not tasks: lemma
  \<open>operations_keep_other_lines\<close>.)
\<close>

theorem add_task_without_final_newline:
  "main [''add'', ''x''] [] (task_file (header_text @ ''notes'')) =
     Inr (Printed (Added ''x''), task_file (header_text @ ''notes- [ ] x'' @ [LF])) \<and>
   other_lines (task_file (header_text @ ''notes'')) = [''# Task List'', '''', ''notes''] \<and>
   other_lines (task_file (header_text @ ''notes- [ ] x'' @ [LF])) =
     [''# Task List'', '''', ''notes- [ ] x''] \<and>
   tasks_of (task_file (header_text @ ''notes- [ ] x'' @ [LF])) = [] \<and>
   clear_done_tasks (task_file (header_text @ ''notes'')) =
     Inr (ClearedDone 0, task_file (header_text @ ''notes'' @ [LF]))"
  by code_simp

subsection \<open>C10: task lines without a well-formed check box\<close>

text \<open>
  C10, as stated, fails: the malformed line \<open>- [?] see [x]\<close> is answered with
  "Already completed.", and on the malformed line \<open>- [?] tick [ ]\<close> the box in the text is
  flipped, so the line is not saved unchanged.
\<close>

theorem check_task_unmarked_line_counterexample:
  "is_task_line ''- [?] see [x]'' \<and>
   check_task 1 (task_file (header_text @ ''- [?] see [x]'' @ [LF])) =
     Inr (AlreadyCompleted, task_file (header_text @ ''- [?] see [x]'' @ [LF])) \<and>
   is_task_line ''- [?] tick [ ]'' \<and>
   check_task 1 (task_file (header_text @ ''- [?] tick [ ]'' @ [LF])) =
     Inr (CheckedOff 1, task_file (header_text @ ''- [?] tick [x]'' @ [LF]))"
  by code_simp

text \<open>
  C10, amended: on a readable file every line whose first three characters are \<open>- [\<close> is
  listed and ranked, in file order, from 1.  If the line of rank \<open>i\<close> contains neither
  \<open>[ ]\<close> nor, in any letter case, \<open>[x]\<close>, and the write succeeds, then \<open>check_task i\<close>
  reports success and saves the lines exactly as they were loaded.
\<close>

theorem check_task_unmarked_line:
  assumes "read_text s = Inr t"
  shows "(\<exists>entries. list_tasks s = Inr (entries, s) \<and>
            map (\<lambda>(n, c, l). l) entries = filter (\<lambda>l. take 3 l = ''- ['') (file_lines s) \<and>
            map (\<lambda>(n, c, l). n) entries = [1..<Suc (length entries)]) \<and>
         (1 \<le> i \<and> i \<le> int (length (tasks_of s)) \<and> writable s \<and>
          \<not> contains (tasks_of s ! nat (i - 1)) ''[ ]'' \<and>
          \<not> contains (lower (tasks_of s ! nat (i - 1))) ''[x]'' \<longrightarrow>
            check_task i s =
              Inr (CheckedOff i, s\<lparr>contents := Some (join [LF] (file_lines s) @ [LF])\<rparr>) \<and>
            file_lines (s\<lparr>contents := Some (join [LF] (file_lines s) @ [LF])\<rparr>) = file_lines s)"
proof (intro conjI impI)
  let ?entries = "map (\<lambda>(n, l). (n + 1, contains (lower l) ''[x]'', l))
                    (zip [0..<length (tasks_of s)] (tasks_of s))"
  have "list_tasks s = Inr (?entries, s)" using assms by (rule list_tasks_readable)
  moreover have "map (\<lambda>(n, c, l). l) ?entries = filter (\<lambda>l. take 3 l = ''- ['') (file_lines s)"
    unfolding list_tasks_lines by (simp add: tasks_of_def is_task_line_take [abs_def])
  moreover have "map (\<lambda>(n, c, l). n) ?entries = [1..<Suc (length ?entries)]"
    unfolding list_tasks_ranks by simp
  ultimately show "\<exists>entries. list_tasks s = Inr (entries, s) \<and>
            map (\<lambda>(n, c, l). l) entries = filter (\<lambda>l. take 3 l = ''- ['') (file_lines s) \<and>
            map (\<lambda>(n, c, l). n) entries = [1..<Suc (length entries)]"
    by blast
next
  assume a: "1 \<le> i \<and> i \<le> int (length (tasks_of s)) \<and> writable s \<and>
          \<not> contains (tasks_of s ! nat (i - 1)) ''[ ]'' \<and>
          \<not> contains (lower (tasks_of s ! nat (i - 1))) ''[x]''"
  then have i: "1 \<le> i" "i \<le> int (length (tasks_of s))" by simp_all
  have k: "nat (i - 1) < length (filter is_task_line (file_lines s))"
    using i by (simp add: tasks_of_def)
  have same: "replace_first ''[ ]'' ''[x]'' (tasks_of s ! nat (i - 1)) = tasks_of s ! nat (i - 1)"
    using a by (simp add: replace_first_absent)
  have "(file_lines s)[task_indices (file_lines s) ! nat (i - 1) := tasks_of s ! nat (i - 1)] =
          file_lines s"
    using nth_task_indices [OF k] unfolding tasks_of_def by (metis list_update_id)
  then show "check_task i s =
      Inr (CheckedOff i, s\<lparr>contents := Some (join [LF] (file_lines s) @ [LF])\<rparr>)"
    unfolding check_task_in_range [OF assms i] using a by (simp add: same)
next
  assume a: "1 \<le> i \<and> i \<le> int (length (tasks_of s)) \<and> writable s \<and>
          \<not> contains (tasks_of s ! nat (i - 1)) ''[ ]'' \<and>
          \<not> contains (lower (tasks_of s ! nat (i - 1))) ''[x]''"
  then have "tasks_of s \<noteq> []" by auto
  then have ne: "file_lines s \<noteq> []" by (auto simp: tasks_of_def)
  have "\<forall>l \<in> set (file_lines s). no_breaks l" by (simp add: file_lines_no_breaks)
  then show "file_lines (s\<lparr>contents := Some (join [LF] (file_lines s) @ [LF])\<rparr>) = file_lines s"
    using file_lines_saved [OF read_text_readable [OF assms]] ne by simp
qed

text \<open>C10, witness: the line \<open>- [~] later\<close> is listed with rank 1 and checked without change.\<close>

theorem check_task_unmarked_line_witness:
  "list_tasks (task_file (header_text @ ''- [~] later'' @ [LF])) =
     Inr ([(1, False, ''- [~] later'')], task_file (header_text @ ''- [~] later'' @ [LF])) \<and>
   check_task 1 (task_file (header_text @ ''- [~] later'' @ [LF])) =
     Inr (CheckedOff 1, task_file (header_text @ ''- [~] later'' @ [LF]))"
proof -
  have rt: "read_text (task_file (header_text @ ''- [~] later'' @ [LF])) =
      Inr (header_text @ ''- [~] later'' @ [LF])"
    by (rule read_text_task_file) (simp add: header_text_def)
  have hyp: "1 \<le> (1::int) \<and> 1 \<le> int (length (tasks_of (task_file (header_text @ ''- [~] later'' @ [LF])))) \<and>
      writable (task_file (header_text @ ''- [~] later'' @ [LF])) \<and>
      \<not> contains (tasks_of (task_file (header_text @ ''- [~] later'' @ [LF])) ! nat (1 - 1)) ''[ ]'' \<and>
      \<not> contains (lower (tasks_of (task_file (header_text @ ''- [~] later'' @ [LF])) ! nat (1 - 1))) ''[x]''"
    by code_simp
  have same: "task_file (header_text @ ''- [~] later'' @ [LF])
      \<lparr>contents := Some (join [LF] (file_lines (task_file (header_text @ ''- [~] later'' @ [LF]))) @ [LF])\<rparr> =
      task_file (header_text @ ''- [~] later'' @ [LF])"
    by code_simp
  have "check_task 1 (task_file (header_text @ ''- [~] later'' @ [LF])) =
      Inr (CheckedOff 1, task_file (header_text @ ''- [~] later'' @ [LF])
        \<lparr>contents := Some (join [LF] (file_lines (task_file (header_text @ ''- [~] later'' @ [LF]))) @ [LF])\<rparr>)"
    using check_task_unmarked_line [OF rt, of 1] hyp by blast
  then have a: "check_task 1 (task_file (header_text @ ''- [~] later'' @ [LF])) =
      Inr (CheckedOff 1, task_file (header_text @ ''- [~] later'' @ [LF]))"
    unfolding same .
  have b: "list_tasks (task_file (header_text @ ''- [~] later'' @ [LF])) =
     Inr ([(1, False, ''- [~] later'')], task_file (header_text @ ''- [~] later'' @ [LF]))"
    by code_simp
  show ?thesis using a b by blast
qed

end
